theory Spec2Isabelle
  imports Main
begin

section \<open>Shared data model\<close>

text \<open>
  Hashes (\<^verbatim>\<open>v1.Hash\<close>) and byte slices are strings. The interfaces of the image library
  (\<^verbatim>\<open>v1.Layer\<close>, \<^verbatim>\<open>v1.Image\<close>, \<^verbatim>\<open>v1.ImageIndex\<close>) are modelled by the results of the
  methods the two packages call: a method that can return an error is a field of type
  \<open>error + 'a\<close>, with \<open>Inl\<close> the error.
\<close>

type_synonym hash = string
type_synonym bytes = string

datatype error =
    ErrExternal string
  | ErrLayerNotFound
  | PanicIndexOutOfRange
  | PanicNilPointer

record v1_Descriptor =
  d_MediaType :: string
  d_Size :: int
  d_Digest :: hash
  d_Data :: "bytes option"

record v1_Manifest =
  m_MediaType :: string
  m_Config :: v1_Descriptor
  m_Layers :: "v1_Descriptor list"

record v1_History =
  hist_CreatedBy :: string
  hist_Comment :: string
  hist_EmptyLayer :: bool

record v1_RootFS =
  rf_Type :: string
  rf_DiffIDs :: "hash list"

record v1_ConfigFile =
  cf_Architecture :: string
  cf_RootFS :: v1_RootFS
  cf_History :: "v1_History list"

record v1_Layer =
  l_Digest :: "error + hash"
  l_DiffID :: "error + hash"
  l_Compressed :: "error + bytes"
  l_Size :: "error + int"
  l_MediaType :: "error + string"

text \<open>
  Modelled from the spec: \<^verbatim>\<open>partial.Descriptor\<close> of the image library, which is not part of
  the repository. It derives the descriptor of a layer from the layer's own size, digest
  and media type, and fails with the first error among them.
\<close>

definition partial_Descriptor :: "v1_Layer \<Rightarrow> error + v1_Descriptor" where
  "partial_Descriptor l =
     (case l_Size l of Inl e \<Rightarrow> Inl e | Inr sz \<Rightarrow>
      case l_Digest l of Inl e \<Rightarrow> Inl e | Inr dg \<Rightarrow>
      case l_MediaType l of Inl e \<Rightarrow> Inl e | Inr mt \<Rightarrow>
        Inr \<lparr>d_MediaType = mt, d_Size = sz, d_Digest = dg, d_Data = None\<rparr>)"


section \<open>Package mutate: the lazily computed image\<close>

subsection \<open>Heap of manifests and config files\<close>

text \<open>
  \<^verbatim>\<open>base.Manifest()\<close> and \<^verbatim>\<open>base.ConfigFile()\<close> return pointers, and \<^verbatim>\<open>populate\<close> writes
  through the pointers it holds. The objects therefore live in an explicit heap: an
  address is an index into a list, \<open>None\<close> is the nil pointer, and allocation appends.
\<close>

record heap =
  h_manifests :: "v1_Manifest list"
  h_configs :: "v1_ConfigFile list"

definition deref_manifest :: "heap \<Rightarrow> nat option \<Rightarrow> v1_Manifest option" where
  "deref_manifest hp p =
     (case p of None \<Rightarrow> None
      | Some a \<Rightarrow> if a < length (h_manifests hp) then Some (h_manifests hp ! a) else None)"

definition deref_config :: "heap \<Rightarrow> nat option \<Rightarrow> v1_ConfigFile option" where
  "deref_config hp p =
     (case p of None \<Rightarrow> None
      | Some a \<Rightarrow> if a < length (h_configs hp) then Some (h_configs hp ! a) else None)"

definition assign_manifest :: "heap \<Rightarrow> nat option \<Rightarrow> v1_Manifest \<Rightarrow> heap" where
  "assign_manifest hp p m =
     (case p of None \<Rightarrow> hp | Some a \<Rightarrow> hp\<lparr>h_manifests := (h_manifests hp)[a := m]\<rparr>)"

definition assign_config :: "heap \<Rightarrow> nat option \<Rightarrow> v1_ConfigFile \<Rightarrow> heap" where
  "assign_config hp p c =
     (case p of None \<Rightarrow> hp | Some a \<Rightarrow> hp\<lparr>h_configs := (h_configs hp)[a := c]\<rparr>)"

text \<open>
  Modelled from the spec: the \<^verbatim>\<open>DeepCopy\<close> methods of the image library, which are not part
  of the repository. A nil receiver gives nil; otherwise a new object with the same
  contents is allocated.
\<close>

definition Manifest_DeepCopy :: "heap \<Rightarrow> nat option \<Rightarrow> nat option \<times> heap" where
  "Manifest_DeepCopy hp p =
     (case deref_manifest hp p of
        None \<Rightarrow> (None, hp)
      | Some m \<Rightarrow> (Some (length (h_manifests hp)), hp\<lparr>h_manifests := h_manifests hp @ [m]\<rparr>))"

definition ConfigFile_DeepCopy :: "heap \<Rightarrow> nat option \<Rightarrow> nat option \<times> heap" where
  "ConfigFile_DeepCopy hp p =
     (case deref_config hp p of
        None \<Rightarrow> (None, hp)
      | Some c \<Rightarrow> (Some (length (h_configs hp)), hp\<lparr>h_configs := h_configs hp @ [c]\<rparr>))"

subsection \<open>The image struct\<close>

text \<open>The base \<^verbatim>\<open>v1.Image\<close>, as package mutate uses it.\<close>

record v1_Image =
  im_ConfigFile :: "error + nat option"
  im_Manifest :: "error + nat option"
  im_Layers :: "error + v1_Layer list"
  im_MediaType :: "error + string"

record image =
  base :: v1_Image
  overrides :: "v1_Layer option list"
  history :: "v1_History option"
  computed :: bool
  diffIDs :: "hash list"
  byDiffID :: "hash \<rightharpoonup> v1_Layer"
  byDigest :: "hash \<rightharpoonup> v1_Layer"
  manifest :: "nat option"
  configFile :: "nat option"

text \<open>
  \<^verbatim>\<open>json.Marshal\<close> and \<^verbatim>\<open>v1.SHA256\<close> are library functions; they are parameters of the
  model.
\<close>

record extern =
  json_Marshal_config :: "v1_ConfigFile \<Rightarrow> error + bytes"
  json_Marshal_manifest :: "v1_Manifest \<Rightarrow> error + bytes"
  v1_SHA256 :: "bytes \<Rightarrow> error + hash \<times> int"

subsection \<open>populate\<close>

text \<open>
  The loop of \<^verbatim>\<open>populate\<close> over \<^verbatim>\<open>img.overrides\<close>. The accumulator holds \<^verbatim>\<open>layers\<close>,
  \<^verbatim>\<open>diffIDs\<close>, \<^verbatim>\<open>byDiffID\<close> and \<^verbatim>\<open>byDigest\<close>. Reading \<^verbatim>\<open>ls[i]\<close> out of range panics.
\<close>

type_synonym populate_acc =
  "v1_Descriptor list \<times> hash list \<times> (hash \<rightharpoonup> v1_Layer) \<times> (hash \<rightharpoonup> v1_Layer)"

fun populate_loop ::
  "v1_Layer list \<Rightarrow> nat \<Rightarrow> v1_Layer option list \<Rightarrow> populate_acc \<Rightarrow> error + populate_acc" where
  "populate_loop ls i [] acc = Inr acc"
| "populate_loop ls i (ov # ovs) (layers, dIDs, byDf, byDg) =
     (case (case ov of
              Some l \<Rightarrow> Inr l
            | None \<Rightarrow> if i < length ls then Inr (ls ! i) else Inl PanicIndexOutOfRange) of
        Inl e \<Rightarrow> Inl e
      | Inr l \<Rightarrow>
          (case partial_Descriptor l of
             Inl e \<Rightarrow> Inl e
           | Inr d \<Rightarrow>
               (case l_DiffID l of
                  Inl e \<Rightarrow> Inl e
                | Inr diffID \<Rightarrow>
                    populate_loop ls (Suc i) ovs
                      (layers @ [d], dIDs @ [diffID], byDf(diffID \<mapsto> l),
                       byDg(d_Digest d \<mapsto> l)))))"

text \<open>
  \<^verbatim>\<open>populate\<close> returns the error (if any), the heap and the receiver. Every \<^verbatim>\<open>return err\<close>
  of the source is a branch that returns the receiver it was given.
\<close>

definition populate :: "extern \<Rightarrow> heap \<Rightarrow> image \<Rightarrow> error option \<times> heap \<times> image" where
  "populate X hp img =
     (if computed img then (None, hp, img)
      else
        case im_ConfigFile (base img) of Inl e \<Rightarrow> (Some e, hp, img) | Inr cp0 \<Rightarrow>
        case ConfigFile_DeepCopy hp cp0 of (cp, hp1) \<Rightarrow>
        case im_Manifest (base img) of Inl e \<Rightarrow> (Some e, hp1, img) | Inr mp0 \<Rightarrow>
        case Manifest_DeepCopy hp1 mp0 of (mp, hp2) \<Rightarrow>
        case im_Layers (base img) of Inl e \<Rightarrow> (Some e, hp2, img) | Inr ls \<Rightarrow>
        case populate_loop ls 0 (overrides img) ([], [], Map.empty, Map.empty) of
          Inl e \<Rightarrow> (Some e, hp2, img)
        | Inr (layers, dIDs, byDf, byDg) \<Rightarrow>
        case deref_manifest hp2 mp of None \<Rightarrow> (Some PanicNilPointer, hp2, img) | Some m \<Rightarrow>
        let hp3 = assign_manifest hp2 mp (m\<lparr>m_Layers := layers\<rparr>) in
        case deref_config hp3 cp of None \<Rightarrow> (Some PanicNilPointer, hp3, img) | Some c \<Rightarrow>
        let c1 = c\<lparr>cf_RootFS := (cf_RootFS c)\<lparr>rf_DiffIDs := dIDs\<rparr>\<rparr>;
            c2 = (case history img of None \<Rightarrow> c1 | Some h \<Rightarrow> c1\<lparr>cf_History := [h]\<rparr>);
            hp4 = assign_config hp3 cp c2
        in
        case json_Marshal_config X c2 of Inl e \<Rightarrow> (Some e, hp4, img) | Inr config \<Rightarrow>
        case v1_SHA256 X config of Inl e \<Rightarrow> (Some e, hp4, img) | Inr (digest, sz) \<Rightarrow>
        let m1 = m\<lparr>m_Layers := layers\<rparr>;
            m2 = m1\<lparr>m_Config := (m_Config m1)\<lparr>d_Digest := digest, d_Size := sz\<rparr>\<rparr>;
            m3 = (if d_Data (m_Config m2) \<noteq> None
                  then m2\<lparr>m_Config := (m_Config m2)\<lparr>d_Data := Some config\<rparr>\<rparr> else m2);
            hp5 = assign_manifest hp4 mp m3
        in (None, hp5,
            img\<lparr>computed := True, diffIDs := dIDs, byDiffID := byDf, byDigest := byDg,
                manifest := mp, configFile := cp\<rparr>))"

subsection \<open>Accessors\<close>

definition Manifest :: "extern \<Rightarrow> heap \<Rightarrow> image \<Rightarrow> (error + nat option) \<times> heap \<times> image" where
  "Manifest X hp img =
     (case populate X hp img of
        (Some e, hp', img') \<Rightarrow> (Inl e, hp', img')
      | (None, hp', img') \<Rightarrow> (Inr (manifest img'), hp', img'))"

definition ConfigFile :: "extern \<Rightarrow> heap \<Rightarrow> image \<Rightarrow> (error + nat option) \<times> heap \<times> image" where
  "ConfigFile X hp img =
     (case populate X hp img of
        (Some e, hp', img') \<Rightarrow> (Inl e, hp', img')
      | (None, hp', img') \<Rightarrow> (Inr (configFile img'), hp', img'))"

definition LayerByDigest ::
  "extern \<Rightarrow> heap \<Rightarrow> image \<Rightarrow> hash \<Rightarrow> (error + v1_Layer) \<times> heap \<times> image" where
  "LayerByDigest X hp img h =
     (case populate X hp img of
        (Some e, hp', img') \<Rightarrow> (Inl e, hp', img')
      | (None, hp', img') \<Rightarrow>
          (case byDigest img' h of
             Some l \<Rightarrow> (Inr l, hp', img')
           | None \<Rightarrow> (Inl ErrLayerNotFound, hp', img')))"

definition LayerByDiffID ::
  "extern \<Rightarrow> heap \<Rightarrow> image \<Rightarrow> hash \<Rightarrow> (error + v1_Layer) \<times> heap \<times> image" where
  "LayerByDiffID X hp img h =
     (case populate X hp img of
        (Some e, hp', img') \<Rightarrow> (Inl e, hp', img')
      | (None, hp', img') \<Rightarrow>
          (case byDiffID img' h of
             Some l \<Rightarrow> (Inr l, hp', img')
           | None \<Rightarrow> (Inl ErrLayerNotFound, hp', img')))"

fun Layers_loop ::
  "extern \<Rightarrow> hash list \<Rightarrow> v1_Layer list \<Rightarrow> heap \<Rightarrow> image \<Rightarrow>
   (error + v1_Layer list) \<times> heap \<times> image" where
  "Layers_loop X [] ls hp img = (Inr ls, hp, img)"
| "Layers_loop X (h # hs) ls hp img =
     (case LayerByDiffID X hp img h of
        (Inl e, hp', img') \<Rightarrow> (Inl e, hp', img')
      | (Inr l, hp', img') \<Rightarrow> Layers_loop X hs (ls @ [l]) hp' img')"

definition Layers :: "extern \<Rightarrow> heap \<Rightarrow> image \<Rightarrow> (error + v1_Layer list) \<times> heap \<times> image" where
  "Layers X hp img =
     (case populate X hp img of
        (Some e, hp', img') \<Rightarrow> (Inl e, hp', img')
      | (None, hp', img') \<Rightarrow> Layers_loop X (diffIDs img') [] hp' img')"

definition RawManifest :: "extern \<Rightarrow> heap \<Rightarrow> image \<Rightarrow> (error + bytes) \<times> heap \<times> image" where
  "RawManifest X hp img =
     (case populate X hp img of
        (Some e, hp', img') \<Rightarrow> (Inl e, hp', img')
      | (None, hp', img') \<Rightarrow>
          (case deref_manifest hp' (manifest img') of
             None \<Rightarrow> (Inr ''null'', hp', img')
           | Some m \<Rightarrow> (json_Marshal_manifest X m, hp', img')))"

definition RawConfigFile :: "extern \<Rightarrow> heap \<Rightarrow> image \<Rightarrow> (error + bytes) \<times> heap \<times> image" where
  "RawConfigFile X hp img =
     (case populate X hp img of
        (Some e, hp', img') \<Rightarrow> (Inl e, hp', img')
      | (None, hp', img') \<Rightarrow>
          (case deref_config hp' (configFile img') of
             None \<Rightarrow> (Inr ''null'', hp', img')
           | Some c \<Rightarrow> (json_Marshal_config X c, hp', img')))"

text \<open>
  The calls a client can make on the image, and the state each leaves behind. \<^verbatim>\<open>Size\<close>,
  \<^verbatim>\<open>Digest\<close> and \<^verbatim>\<open>ConfigName\<close> run \<^verbatim>\<open>populate\<close> and then hand the image to helpers of the
  image library, which read it through \<^verbatim>\<open>RawManifest\<close> and \<^verbatim>\<open>RawConfigFile\<close>;
  \<^verbatim>\<open>MediaType\<close> only asks the base.
\<close>

datatype accessor =
    CallMediaType
  | CallSize
  | CallDigest
  | CallManifest
  | CallRawManifest
  | CallConfigName
  | CallConfigFile
  | CallRawConfigFile
  | CallLayers
  | CallLayerByDigest hash
  | CallLayerByDiffID hash

fun call :: "extern \<Rightarrow> accessor \<Rightarrow> heap \<times> image \<Rightarrow> heap \<times> image" where
  "call X CallMediaType (hp, img) = (hp, img)"
| "call X CallSize (hp, img) =
     (case populate X hp img of
        (Some e, s) \<Rightarrow> s
      | (None, hp', img') \<Rightarrow> snd (RawManifest X hp' img'))"
| "call X CallDigest (hp, img) =
     (case populate X hp img of
        (Some e, s) \<Rightarrow> s
      | (None, hp', img') \<Rightarrow> snd (RawManifest X hp' img'))"
| "call X CallManifest (hp, img) = snd (Manifest X hp img)"
| "call X CallRawManifest (hp, img) = snd (RawManifest X hp img)"
| "call X CallConfigName (hp, img) =
     (case populate X hp img of
        (Some e, s) \<Rightarrow> s
      | (None, hp', img') \<Rightarrow> snd (RawConfigFile X hp' img'))"
| "call X CallConfigFile (hp, img) = snd (ConfigFile X hp img)"
| "call X CallRawConfigFile (hp, img) = snd (RawConfigFile X hp img)"
| "call X CallLayers (hp, img) = snd (Layers X hp img)"
| "call X (CallLayerByDigest h) (hp, img) = snd (LayerByDigest X hp img h)"
| "call X (CallLayerByDiffID h) (hp, img) = snd (LayerByDiffID X hp img h)"

fun calls :: "extern \<Rightarrow> accessor list \<Rightarrow> heap \<times> image \<Rightarrow> heap \<times> image" where
  "calls X [] s = s"
| "calls X (c # cs) s = calls X cs (call X c s)"


section \<open>Package sif: updating the blobs of a SIF file\<close>

subsection \<open>The file image, the cache directory and injected faults\<close>

text \<open>
  Modelled from the spec: the store primitives of the SIF library (enumerate the objects
  of a kind, delete an object by identifier, create an object from a byte stream), which
  are not part of the repository. The file image is its table of descriptors; the
  identifier of an object is its position in the table; a deleted object leaves an unused
  slot; a new object goes to the end of the table.
\<close>

datatype DataType = DataOCIBlob | DataOCIRootIndex | DataOther

record sif_Descriptor =
  o_DataType :: DataType
  o_OCIBlobDigest :: "error + hash"
  o_data :: bytes

text \<open>
  The \<open>trace\<close> is ghost state: every primitive that changes the cache directory or the file
  image appends the change it made. The list \<open>faults\<close> decides the outcome of the coming
  input/output primitives, one entry each: \<open>Some e\<close> makes the primitive fail with \<open>e\<close>
  and change nothing; when the list is used up, primitives no longer fail for external
  reasons.
\<close>

datatype event =
    EvStage hash bytes
  | EvDelete nat sif_Descriptor
  | EvAdd sif_Descriptor

record world =
  fi :: "sif_Descriptor option list"
  cacheDir :: "(hash \<rightharpoonup> bytes) option"
  faults :: "error option list"
  trace :: "event list"

definition fault :: "world \<Rightarrow> error option \<times> world" where
  "fault w = (case faults w of [] \<Rightarrow> (None, w) | f # fs \<Rightarrow> (f, w\<lparr>faults := fs\<rparr>))"

definition descriptors_of :: "DataType \<Rightarrow> sif_Descriptor option list \<Rightarrow> (nat \<times> sif_Descriptor) list" where
  "descriptors_of t tab =
     List.map_filter
       (\<lambda>(i, slot). case slot of
                      None \<Rightarrow> None
                    | Some d \<Rightarrow> if o_DataType d = t then Some (i, d) else None)
       (enumerate 0 tab)"

definition GetDescriptors ::
  "DataType \<Rightarrow> world \<Rightarrow> (error + (nat \<times> sif_Descriptor) list) \<times> world" where
  "GetDescriptors t w =
     (case fault w of
        (Some e, w') \<Rightarrow> (Inl e, w')
      | (None, w') \<Rightarrow> (Inr (descriptors_of t (fi w')), w'))"

definition GetDescriptor ::
  "DataType \<Rightarrow> world \<Rightarrow> (error + nat \<times> sif_Descriptor) \<times> world" where
  "GetDescriptor t w =
     (case fault w of
        (Some e, w') \<Rightarrow> (Inl e, w')
      | (None, w') \<Rightarrow>
          (case descriptors_of t (fi w') of
             [] \<Rightarrow> (Inl (ErrExternal ''object not found''), w')
           | [x] \<Rightarrow> (Inr x, w')
           | _ \<Rightarrow> (Inl (ErrExternal ''multiple objects found''), w')))"

definition DeleteObject :: "nat \<Rightarrow> world \<Rightarrow> error option \<times> world" where
  "DeleteObject i w =
     (case fault w of
        (Some e, w') \<Rightarrow> (Some e, w')
      | (None, w') \<Rightarrow>
          if i < length (fi w') then
            (case fi w' ! i of
               None \<Rightarrow> (Some (ErrExternal ''object not found''), w')
             | Some d \<Rightarrow>
                 (None, w'\<lparr>fi := (fi w')[i := None], trace := trace w' @ [EvDelete i d]\<rparr>))
          else (Some (ErrExternal ''object not found''), w'))"

definition AddObject :: "sif_Descriptor \<Rightarrow> world \<Rightarrow> error option \<times> world" where
  "AddObject d w =
     (case fault w of
        (Some e, w') \<Rightarrow> (Some e, w')
      | (None, w') \<Rightarrow> (None, w'\<lparr>fi := fi w' @ [Some d], trace := trace w' @ [EvAdd d]\<rparr>))"

text \<open>
  Modelled from the spec: \<^verbatim>\<open>writeBlobToFileImage\<close> and \<^verbatim>\<open>ImageIndexFromFileImage\<close>, which are
  functions of the repository outside the two source files. The first creates a content
  blob (or, with \<^verbatim>\<open>root\<close> set, the root index object) from a byte stream; the digest of the
  new object is the hash \<open>H\<close> of its bytes. The second gives the root index held by the
  file image, here its serialized bytes; there must be exactly one root index object. The
  digest of that index is the hash of its bytes.
\<close>

definition writeBlobToFileImage :: "(bytes \<Rightarrow> hash) \<Rightarrow> bytes \<Rightarrow> bool \<Rightarrow> world \<Rightarrow> error option \<times> world" where
  "writeBlobToFileImage H r root w =
     AddObject \<lparr>o_DataType = (if root then DataOCIRootIndex else DataOCIBlob),
                o_OCIBlobDigest = Inr (H r), o_data = r\<rparr> w"

definition ImageIndexFromFileImage :: "world \<Rightarrow> (error + bytes) \<times> world" where
  "ImageIndexFromFileImage w =
     (case GetDescriptor DataOCIRootIndex w of
        (Inl e, w') \<Rightarrow> (Inl e, w')
      | (Inr (i, d), w') \<Rightarrow> (Inr (o_data d), w'))"

definition rootIndex_Digest :: "(bytes \<Rightarrow> hash) \<Rightarrow> bytes \<Rightarrow> error + hash" where
  "rootIndex_Digest H rawManifest = Inr (H rawManifest)"

text \<open>
  The temporary directory of one call: \<open>None\<close> when it does not exist, otherwise its files,
  named by digest. \<^verbatim>\<open>io.Copy\<close> is the step that puts the content into the file.
\<close>

definition os_MkdirTemp :: "string \<Rightarrow> world \<Rightarrow> error option \<times> world" where
  "os_MkdirTemp dir w =
     (case fault w of
        (Some e, w') \<Rightarrow> (Some e, w')
      | (None, w') \<Rightarrow> (None, w'\<lparr>cacheDir := Some Map.empty\<rparr>))"

definition os_RemoveAll :: "world \<Rightarrow> world" where
  "os_RemoveAll w = w\<lparr>cacheDir := None\<rparr>"

definition os_Create :: "hash \<Rightarrow> world \<Rightarrow> error option \<times> world" where
  "os_Create name w =
     (case fault w of
        (Some e, w') \<Rightarrow> (Some e, w')
      | (None, w') \<Rightarrow>
          (case cacheDir w' of
             None \<Rightarrow> (Some (ErrExternal ''no such file or directory''), w')
           | Some files \<Rightarrow> (None, w'\<lparr>cacheDir := Some (files(name \<mapsto> []))\<rparr>)))"

definition io_Copy :: "hash \<Rightarrow> bytes \<Rightarrow> world \<Rightarrow> error option \<times> world" where
  "io_Copy name content w =
     (case fault w of
        (Some e, w') \<Rightarrow> (Some e, w')
      | (None, w') \<Rightarrow>
          (case cacheDir w' of
             None \<Rightarrow> (Some (ErrExternal ''no such file or directory''), w')
           | Some files \<Rightarrow>
               (None, w'\<lparr>cacheDir := Some (files(name \<mapsto> content)),
                         trace := trace w' @ [EvStage name content]\<rparr>)))"

definition rc_Close :: "world \<Rightarrow> error option \<times> world" where
  "rc_Close w = fault w"

definition os_Open :: "hash \<Rightarrow> world \<Rightarrow> (error + bytes) \<times> world" where
  "os_Open name w =
     (case fault w of
        (Some e, w') \<Rightarrow> (Inl e, w')
      | (None, w') \<Rightarrow>
          (case cacheDir w' of
             None \<Rightarrow> (Inl (ErrExternal ''no such file or directory''), w')
           | Some files \<Rightarrow>
               (case files name of
                  None \<Rightarrow> (Inl (ErrExternal ''no such file or directory''), w')
                | Some content \<Rightarrow> (Inr content, w'))))"

subsection \<open>Options\<close>

record updateOpts =
  tempDir :: string

type_synonym UpdateOpt = "updateOpts \<Rightarrow> error + updateOpts"

definition OptTarTempDir :: "string \<Rightarrow> UpdateOpt" where
  "OptTarTempDir d = (\<lambda>c. Inr (c\<lparr>tempDir := d\<rparr>))"

fun applyOpts :: "UpdateOpt list \<Rightarrow> updateOpts \<Rightarrow> error + updateOpts" where
  "applyOpts [] uo = Inr uo"
| "applyOpts (opt # opts) uo =
     (case opt uo of Inl e \<Rightarrow> Inl e | Inr uo' \<Rightarrow> applyOpts opts uo')"

subsection \<open>The target image index\<close>

text \<open>
  A child \<^verbatim>\<open>v1.Image\<close> as package sif uses it: the package only reads the manifest, so
  \<^verbatim>\<open>Manifest()\<close> is its value. A \<^verbatim>\<open>v1.ImageIndex\<close> is a finite tree: \<^verbatim>\<open>ImageIndex(h)\<close>,
  \<^verbatim>\<open>Image(h)\<close> and the blob reader look the digest up in tables, and fail for a digest
  that is not there.
\<close>

record index_Image =
  i_Layers :: "error + v1_Layer list"
  i_Manifest :: "error + v1_Manifest"
  i_RawConfigFile :: "error + bytes"
  i_RawManifest :: "error + bytes"

datatype v1_ImageIndex = ImageIndex
  (ii_Digest: "error + hash")
  (ii_RawManifest: "error + bytes")
  (ii_IndexManifest: "error + v1_Descriptor list")
  (ii_indices: "(hash \<times> (error + v1_ImageIndex)) list")
  (ii_images: "(hash \<times> (error + index_Image)) list")
  (ii_blobs: "(hash \<times> (error + bytes)) list")

definition lookup_child :: "(hash \<times> (error + 'a)) list \<Rightarrow> hash \<Rightarrow> error + 'a" where
  "lookup_child tab h =
     (case map_of tab h of None \<Rightarrow> Inl (ErrExternal ''not found'') | Some r \<Rightarrow> r)"

definition ii_ImageIndex :: "v1_ImageIndex \<Rightarrow> hash \<Rightarrow> error + v1_ImageIndex" where
  "ii_ImageIndex ii h = lookup_child (ii_indices ii) h"

definition ii_Image :: "v1_ImageIndex \<Rightarrow> hash \<Rightarrow> error + index_Image" where
  "ii_Image ii h = lookup_child (ii_images ii) h"

text \<open>
  Modelled from the spec: \<^verbatim>\<open>blobFromIndex\<close>, a function of the repository outside the two
  source files; it opens the content of an entry that is neither an index nor an image.
\<close>

definition blobFromIndex :: "v1_ImageIndex \<Rightarrow> hash \<Rightarrow> error + bytes" where
  "blobFromIndex ii h = lookup_child (ii_blobs ii) h"

definition DockerManifestList :: string where
  "DockerManifestList = ''application/vnd.docker.distribution.manifest.list.v2+json''"

definition OCIImageIndex :: string where
  "OCIImageIndex = ''application/vnd.oci.image.index.v1+json''"

definition DockerManifestSchema2 :: string where
  "DockerManifestSchema2 = ''application/vnd.docker.distribution.manifest.v2+json''"

definition OCIManifestSchema1 :: string where
  "OCIManifestSchema1 = ''application/vnd.oci.image.manifest.v1+json''"

subsection \<open>Staging blobs in the cache directory\<close>

definition writeCacheBlob :: "bytes \<Rightarrow> hash \<Rightarrow> world \<Rightarrow> error option \<times> world" where
  "writeCacheBlob rc digest w =
     (case os_Create digest w of
        (Some e, w1) \<Rightarrow> (Some e, w1)
      | (None, w1) \<Rightarrow>
          (case io_Copy digest rc w1 of
             (Some e, w2) \<Rightarrow> (Some e, w2)
           | (None, w2) \<Rightarrow> rc_Close w2))"

definition readCacheBlob :: "hash \<Rightarrow> world \<Rightarrow> (error + bytes) \<times> world" where
  "readCacheBlob digest w = os_Open digest w"

type_synonym blob_lists = "hash list \<times> hash list"

fun cacheImageBlobs_layers ::
  "v1_Layer list \<Rightarrow> hash list \<Rightarrow> blob_lists \<Rightarrow> world \<Rightarrow> (error + blob_lists) \<times> world" where
  "cacheImageBlobs_layers [] skipDigests acc w = (Inr acc, w)"
| "cacheImageBlobs_layers (l # ls) skipDigests (cached, skipped) w =
     (case l_Digest l of
        Inl e \<Rightarrow> (Inl e, w)
      | Inr ld \<Rightarrow>
          if ld \<in> set skipDigests
          then cacheImageBlobs_layers ls skipDigests (cached, skipped @ [ld]) w
          else
            (case l_Compressed l of
               Inl e \<Rightarrow> (Inl e, w)
             | Inr rc \<Rightarrow>
                 (case writeCacheBlob rc ld w of
                    (Some e, w') \<Rightarrow> (Inl e, w')
                  | (None, w') \<Rightarrow>
                      cacheImageBlobs_layers ls skipDigests (cached @ [ld], skipped) w')))"

definition cacheImageBlobs ::
  "index_Image \<Rightarrow> hash list \<Rightarrow> world \<Rightarrow> (error + blob_lists) \<times> world" where
  "cacheImageBlobs im skipDigests w =
     (case i_Layers im of
        Inl e \<Rightarrow> (Inl e, w)
      | Inr layers \<Rightarrow>
     case cacheImageBlobs_layers layers skipDigests ([], []) w of
        (Inl e, w1) \<Rightarrow> (Inl e, w1)
      | (Inr (cached, skipped), w1) \<Rightarrow>
     case i_Manifest im of
        Inl e \<Rightarrow> (Inl e, w1)
      | Inr mf \<Rightarrow>
     if d_Digest (m_Config mf) \<in> set skipDigests
     then (Inr (cached, skipped @ [d_Digest (m_Config mf)]), w1)
     else
     case i_RawConfigFile im of
        Inl e \<Rightarrow> (Inl e, w1)
      | Inr c \<Rightarrow>
     case writeCacheBlob c (d_Digest (m_Config mf)) w1 of
        (Some e, w2) \<Rightarrow> (Inl e, w2)
      | (None, w2) \<Rightarrow> (Inr (cached @ [d_Digest (m_Config mf)], skipped), w2))"

lemma size_ii_ImageIndex: "ii_ImageIndex ii h = Inr c \<Longrightarrow> size c < size ii"
proof -
  have sub: "map_of tab h = Some (Inr c) \<Longrightarrow>
      size c < Suc (size_list (size_prod (\<lambda>_. 0) (size_sum (\<lambda>_. 0) size)) tab)" for tab
    by (induction tab) (auto split: if_splits)
  show "ii_ImageIndex ii h = Inr c \<Longrightarrow> size c < size ii"
    by (cases ii) (auto simp: ii_ImageIndex_def lookup_child_def split: option.splits dest!: sub)
qed

text \<open>
  \<^verbatim>\<open>cacheIndexBlobs\<close> and its loop over \<^verbatim>\<open>index.Manifests\<close>; the accumulator of the loop
  holds \<^verbatim>\<open>cached\<close> and \<^verbatim>\<open>skipped\<close>.
\<close>

function cacheIndexBlobs ::
    "v1_ImageIndex \<Rightarrow> hash list \<Rightarrow> world \<Rightarrow> (error + blob_lists) \<times> world"
  and cacheIndexBlobs_loop ::
    "v1_ImageIndex \<Rightarrow> v1_Descriptor list \<Rightarrow> hash list \<Rightarrow> blob_lists \<Rightarrow> world \<Rightarrow>
     (error + blob_lists) \<times> world" where
  "cacheIndexBlobs ii skipDigests w =
     (case ii_IndexManifest ii of
        Inl e \<Rightarrow> (Inl e, w)
      | Inr index \<Rightarrow> cacheIndexBlobs_loop ii index skipDigests ([], []) w)"
| "cacheIndexBlobs_loop ii [] skipDigests acc w = (Inr acc, w)"
| "cacheIndexBlobs_loop ii (desc # descs) skipDigests (cached, skipped) w =
     (if d_MediaType desc = DockerManifestList \<or> d_MediaType desc = OCIImageIndex then
        (case ii_ImageIndex ii (d_Digest desc) of
           Inl e \<Rightarrow> (Inl e, w)
         | Inr childIndex \<Rightarrow>
        case cacheIndexBlobs childIndex skipDigests w of
           (Inl e, w1) \<Rightarrow> (Inl e, w1)
         | (Inr (childCached, childSkipped), w1) \<Rightarrow>
        if d_Digest desc \<in> set skipDigests
        then cacheIndexBlobs_loop ii descs skipDigests
               (cached @ childCached, skipped @ childSkipped @ [d_Digest desc]) w1
        else
        case ii_RawManifest childIndex of
           Inl e \<Rightarrow> (Inl e, w1)
         | Inr rm \<Rightarrow>
        case writeCacheBlob rm (d_Digest desc) w1 of
           (Some e, w2) \<Rightarrow> (Inl e, w2)
         | (None, w2) \<Rightarrow>
             cacheIndexBlobs_loop ii descs skipDigests
               (cached @ childCached @ [d_Digest desc], skipped @ childSkipped) w2)
      else if d_MediaType desc = DockerManifestSchema2 \<or> d_MediaType desc = OCIManifestSchema1 then
        (case ii_Image ii (d_Digest desc) of
           Inl e \<Rightarrow> (Inl e, w)
         | Inr childImage \<Rightarrow>
        case cacheImageBlobs childImage skipDigests w of
           (Inl e, w1) \<Rightarrow> (Inl e, w1)
         | (Inr (childCached, childSkipped), w1) \<Rightarrow>
        if d_Digest desc \<in> set skipDigests
        then cacheIndexBlobs_loop ii descs skipDigests
               (cached @ childCached, skipped @ childSkipped @ [d_Digest desc]) w1
        else
        case i_RawManifest childImage of
           Inl e \<Rightarrow> (Inl e, w1)
         | Inr rm \<Rightarrow>
        case writeCacheBlob rm (d_Digest desc) w1 of
           (Some e, w2) \<Rightarrow> (Inl e, w2)
         | (None, w2) \<Rightarrow>
             cacheIndexBlobs_loop ii descs skipDigests
               (cached @ childCached @ [d_Digest desc], skipped @ childSkipped) w2)
      else
        if d_Digest desc \<in> set skipDigests
        then cacheIndexBlobs_loop ii descs skipDigests (cached, skipped @ [d_Digest desc]) w
        else
        (case blobFromIndex ii (d_Digest desc) of
           Inl e \<Rightarrow> (Inl e, w)
         | Inr rc \<Rightarrow>
        case writeCacheBlob rc (d_Digest desc) w of
           (Some e, w1) \<Rightarrow> (Inl e, w1)
         | (None, w1) \<Rightarrow>
             cacheIndexBlobs_loop ii descs skipDigests (cached @ [d_Digest desc], skipped) w1))"
  by pat_completeness auto
termination
  by (relation "inv_image (less_than <*lex*> less_than)
        (\<lambda>x. case x of
               Inl (ii, skipDigests, w) \<Rightarrow>
                 (size ii, Suc (case ii_IndexManifest ii of Inl e \<Rightarrow> 0 | Inr index \<Rightarrow> length index))
             | Inr (ii, descs, skipDigests, acc, w) \<Rightarrow> (size ii, length descs))")
     (auto dest: size_ii_ImageIndex)


subsection \<open>Update\<close>

fun sifBlobs_loop :: "(nat \<times> sif_Descriptor) list \<Rightarrow> hash list \<Rightarrow> error + hash list" where
  "sifBlobs_loop [] blobs = Inr blobs"
| "sifBlobs_loop ((i, d) # descrs) blobs =
     (case o_OCIBlobDigest d of
        Inl e \<Rightarrow> Inl e
      | Inr dDigest \<Rightarrow> sifBlobs_loop descrs (blobs @ [dDigest]))"

definition sifBlobs :: "world \<Rightarrow> (error + hash list) \<times> world" where
  "sifBlobs w =
     (case GetDescriptors DataOCIBlob w of
        (Inl e, w') \<Rightarrow> (Inl e, w')
      | (Inr descrs, w') \<Rightarrow> (sifBlobs_loop descrs [], w'))"

fun deleteBlobsExcept_loop ::
  "(nat \<times> sif_Descriptor) list \<Rightarrow> hash list \<Rightarrow> world \<Rightarrow> error option \<times> world" where
  "deleteBlobsExcept_loop [] keepDigests w = (None, w)"
| "deleteBlobsExcept_loop ((i, d) # descs) keepDigests w =
     (case o_OCIBlobDigest d of
        Inl e \<Rightarrow> (Some e, w)
      | Inr dd \<Rightarrow>
          if dd \<in> set keepDigests then deleteBlobsExcept_loop descs keepDigests w
          else
            (case DeleteObject i w of
               (Some e, w') \<Rightarrow> (Some e, w')
             | (None, w') \<Rightarrow> deleteBlobsExcept_loop descs keepDigests w'))"

definition deleteBlobsExcept :: "hash list \<Rightarrow> world \<Rightarrow> error option \<times> world" where
  "deleteBlobsExcept keepDigests w =
     (case GetDescriptors DataOCIBlob w of
        (Inl e, w') \<Rightarrow> (Some e, w')
      | (Inr descs, w') \<Rightarrow> deleteBlobsExcept_loop descs keepDigests w')"

definition deleteRootIndex :: "world \<Rightarrow> error option \<times> world" where
  "deleteRootIndex w =
     (case GetDescriptor DataOCIRootIndex w of
        (Inl e, w') \<Rightarrow> (Some e, w')
      | (Inr (i, d), w') \<Rightarrow> DeleteObject i w')"

text \<open>The loop of \<^verbatim>\<open>Update\<close> that writes the cached blobs into the file image.\<close>

fun Update_write :: "(bytes \<Rightarrow> hash) \<Rightarrow> hash list \<Rightarrow> world \<Rightarrow> error option \<times> world" where
  "Update_write H [] w = (None, w)"
| "Update_write H (b # bs) w =
     (case readCacheBlob b w of
        (Inl e, w1) \<Rightarrow> (Some e, w1)
      | (Inr rc, w1) \<Rightarrow>
          (case writeBlobToFileImage H rc False w1 of
             (Some e, w2) \<Rightarrow> (Some e, w2)
           | (None, w2) \<Rightarrow>
               (case rc_Close w2 of
                  (Some e, w3) \<Rightarrow> (Some e, w3)
                | (None, w3) \<Rightarrow> Update_write H bs w3)))"

text \<open>
  The part of \<^verbatim>\<open>Update\<close> that runs once the cache directory exists (from the call of
  \<^verbatim>\<open>cacheIndexBlobs\<close> to the end); \<^verbatim>\<open>Update\<close> runs the deferred \<^verbatim>\<open>os.RemoveAll\<close> after it,
  whatever it returns.
\<close>

definition Update_cached ::
  "(bytes \<Rightarrow> hash) \<Rightarrow> v1_ImageIndex \<Rightarrow> hash list \<Rightarrow> world \<Rightarrow> error option \<times> world" where
  "Update_cached H ii blobs w =
     (case cacheIndexBlobs ii blobs w of
        (Inl e, w1) \<Rightarrow> (Some e, w1)
      | (Inr (cachedBlobs, keepBlobs), w1) \<Rightarrow>
     case ii_RawManifest ii of
        Inl e \<Rightarrow> (Some e, w1)
      | Inr ri \<Rightarrow>
     case deleteBlobsExcept keepBlobs w1 of
        (Some e, w2) \<Rightarrow> (Some e, w2)
      | (None, w2) \<Rightarrow>
     case deleteRootIndex w2 of
        (Some e, w3) \<Rightarrow> (Some e, w3)
      | (None, w3) \<Rightarrow>
     case Update_write H cachedBlobs w3 of
        (Some e, w4) \<Rightarrow> (Some e, w4)
      | (None, w4) \<Rightarrow> writeBlobToFileImage H ri True w4)"

definition Update ::
  "(bytes \<Rightarrow> hash) \<Rightarrow> v1_ImageIndex \<Rightarrow> UpdateOpt list \<Rightarrow> world \<Rightarrow> error option \<times> world" where
  "Update H ii opts w =
     (case applyOpts opts \<lparr>tempDir = []\<rparr> of
        Inl e \<Rightarrow> (Some e, w)
      | Inr uo \<Rightarrow>
     case ImageIndexFromFileImage w of
        (Inl e, w1) \<Rightarrow> (Some e, w1)
      | (Inr sifRootIndex, w1) \<Rightarrow>
     case rootIndex_Digest H sifRootIndex of
        Inl e \<Rightarrow> (Some e, w1)
      | Inr sifRootDigest \<Rightarrow>
     case ii_Digest ii of
        Inl e \<Rightarrow> (Some e, w1)
      | Inr newRootDigest \<Rightarrow>
     if sifRootDigest = newRootDigest then (None, w1)
     else
     case sifBlobs w1 of
        (Inl e, w2) \<Rightarrow> (Some e, w2)
      | (Inr blobs, w2) \<Rightarrow>
     case os_MkdirTemp (tempDir uo) w2 of
        (Some e, w3) \<Rightarrow> (Some e, w3)
      | (None, w3) \<Rightarrow>
     case Update_cached H ii blobs w3 of
        (r, w4) \<Rightarrow> (r, os_RemoveAll w4))"

subsection \<open>What an index references\<close>

text \<open>
  The blobs an image index references, following the words of the specification: those of
  its child indices, then each child index itself; the layers of its images, then the
  config, then each image manifest itself; and any other entry. Each digest comes with the
  content the index serves for it. The list is in the order of the walk, and a digest that
  is referenced twice is listed twice.
\<close>

type_synonym blob_ref = "hash \<times> (error + bytes)"

fun layers_refs :: "v1_Layer list \<Rightarrow> error + blob_ref list" where
  "layers_refs [] = Inr []"
| "layers_refs (l # ls) =
     (case l_Digest l of
        Inl e \<Rightarrow> Inl e
      | Inr ld \<Rightarrow>
          (case layers_refs ls of
             Inl e \<Rightarrow> Inl e
           | Inr rs \<Rightarrow> Inr ((ld, l_Compressed l) # rs)))"

definition image_refs :: "index_Image \<Rightarrow> error + blob_ref list" where
  "image_refs im =
     (case i_Layers im of
        Inl e \<Rightarrow> Inl e
      | Inr layers \<Rightarrow>
          (case layers_refs layers of
             Inl e \<Rightarrow> Inl e
           | Inr rs \<Rightarrow>
               (case i_Manifest im of
                  Inl e \<Rightarrow> Inl e
                | Inr mf \<Rightarrow> Inr (rs @ [(d_Digest (m_Config mf), i_RawConfigFile im)]))))"

function index_refs :: "v1_ImageIndex \<Rightarrow> error + blob_ref list"
  and index_refs_list :: "v1_ImageIndex \<Rightarrow> v1_Descriptor list \<Rightarrow> error + blob_ref list" where
  "index_refs ii =
     (case ii_IndexManifest ii of
        Inl e \<Rightarrow> Inl e
      | Inr index \<Rightarrow> index_refs_list ii index)"
| "index_refs_list ii [] = Inr []"
| "index_refs_list ii (desc # descs) =
     (if d_MediaType desc = DockerManifestList \<or> d_MediaType desc = OCIImageIndex then
        (case ii_ImageIndex ii (d_Digest desc) of
           Inl e \<Rightarrow> Inl e
         | Inr childIndex \<Rightarrow>
             (case index_refs childIndex of
                Inl e \<Rightarrow> Inl e
              | Inr rs \<Rightarrow>
                  (case index_refs_list ii descs of
                     Inl e \<Rightarrow> Inl e
                   | Inr rest \<Rightarrow>
                       Inr (rs @ [(d_Digest desc, ii_RawManifest childIndex)] @ rest))))
      else if d_MediaType desc = DockerManifestSchema2 \<or> d_MediaType desc = OCIManifestSchema1 then
        (case ii_Image ii (d_Digest desc) of
           Inl e \<Rightarrow> Inl e
         | Inr childImage \<Rightarrow>
             (case image_refs childImage of
                Inl e \<Rightarrow> Inl e
              | Inr rs \<Rightarrow>
                  (case index_refs_list ii descs of
                     Inl e \<Rightarrow> Inl e
                   | Inr rest \<Rightarrow>
                       Inr (rs @ [(d_Digest desc, i_RawManifest childImage)] @ rest))))
      else
        (case index_refs_list ii descs of
           Inl e \<Rightarrow> Inl e
         | Inr rest \<Rightarrow> Inr ((d_Digest desc, blobFromIndex ii (d_Digest desc)) # rest)))"
  by pat_completeness auto
termination
  by (relation "inv_image (less_than <*lex*> less_than)
        (\<lambda>x. case x of
               Inl ii \<Rightarrow>
                 (size ii, Suc (case ii_IndexManifest ii of Inl e \<Rightarrow> 0 | Inr index \<Rightarrow> length index))
             | Inr (ii, descs) \<Rightarrow> (size ii, length descs))")
     (auto dest: size_ii_ImageIndex)

text \<open>The digests of the content blobs of a file image, and its root index objects.\<close>

definition blob_digests :: "sif_Descriptor option list \<Rightarrow> (error + hash) set" where
  "blob_digests tab = set (map (\<lambda>(i, d). o_OCIBlobDigest d) (descriptors_of DataOCIBlob tab))"

definition root_indexes :: "sif_Descriptor option list \<Rightarrow> bytes list" where
  "root_indexes tab = map (\<lambda>(i, d). o_data d) (descriptors_of DataOCIRootIndex tab)"

text \<open>
  An index is content addressed, for the hash \<open>H\<close> and relative to a file image, when
  every digest it references that is not the digest of a content blob of the file image
  is the hash of the content the index serves for it. It is self addressed when its own
  digest is the hash of its serialized manifest.
\<close>

definition content_addressed ::
  "(bytes \<Rightarrow> hash) \<Rightarrow> v1_ImageIndex \<Rightarrow> sif_Descriptor option list \<Rightarrow> bool" where
  "content_addressed H ii tab =
     (case index_refs ii of
        Inl e \<Rightarrow> False
      | Inr rs \<Rightarrow>
          list_all (\<lambda>(d, c). Inr d \<in> blob_digests tab \<or>
                             (case c of Inl e \<Rightarrow> True | Inr b \<Rightarrow> H b = d)) rs)"

definition self_addressed :: "(bytes \<Rightarrow> hash) \<Rightarrow> v1_ImageIndex \<Rightarrow> bool" where
  "self_addressed H ii =
     (case ii_RawManifest ii of
        Inl e \<Rightarrow> False
      | Inr ri \<Rightarrow> ii_Digest ii = Inr (H ri))"

section \<open>Notions used in the statements about package mutate\<close>

text \<open>
  One heap extends another when every object of the first is still there, at the same
  address and with the same contents.
\<close>

definition heap_extends :: "heap \<Rightarrow> heap \<Rightarrow> bool" where
  "heap_extends hp hp' =
     (take (length (h_manifests hp)) (h_manifests hp') = h_manifests hp \<and>
      take (length (h_configs hp)) (h_configs hp') = h_configs hp)"

text \<open>
  The effective layers of an override list: the override where there is one, otherwise the
  base layer at the same index. \<open>slots_in_range\<close> says that every empty slot has a base
  layer to fall back on; \<open>layer_ok\<close> that the descriptor and the diff-ID of a layer can be
  obtained. \<open>index_layers\<close> is the lookup map that results from entering the layers one
  after the other under a key.
\<close>

fun effective :: "v1_Layer list \<Rightarrow> nat \<Rightarrow> v1_Layer option list \<Rightarrow> v1_Layer list" where
  "effective ls i [] = []"
| "effective ls i (ov # ovs) =
     (case ov of Some l \<Rightarrow> l | None \<Rightarrow> ls ! i) # effective ls (Suc i) ovs"

fun slots_in_range :: "v1_Layer list \<Rightarrow> nat \<Rightarrow> v1_Layer option list \<Rightarrow> bool" where
  "slots_in_range ls i [] = True"
| "slots_in_range ls i (ov # ovs) =
     ((ov \<noteq> None \<or> i < length ls) \<and> slots_in_range ls (Suc i) ovs)"

definition layer_ok :: "v1_Layer \<Rightarrow> bool" where
  "layer_ok l = (\<not> isl (partial_Descriptor l) \<and> \<not> isl (l_DiffID l))"

definition descriptor_of :: "v1_Layer \<Rightarrow> v1_Descriptor" where
  "descriptor_of l = projr (partial_Descriptor l)"

definition diffID_of :: "v1_Layer \<Rightarrow> hash" where
  "diffID_of l = projr (l_DiffID l)"

definition digest_of :: "v1_Layer \<Rightarrow> hash" where
  "digest_of l = projr (l_Digest l)"

fun index_layers :: "(v1_Layer \<Rightarrow> hash) \<Rightarrow> v1_Layer list \<Rightarrow> (hash \<rightharpoonup> v1_Layer) \<Rightarrow> (hash \<rightharpoonup> v1_Layer)" where
  "index_layers key [] m = m"
| "index_layers key (l # ls) m = index_layers key ls (m(key l \<mapsto> l))"

text \<open>
  A layer entered into a lookup map replaces the layer entered earlier under the same key.
  The layer at position \<open>j\<close> of a list is unshadowed under a key when no layer after
  it, other than that layer itself, has its key: the map then still holds it once all the
  layers of the list are entered.
\<close>

definition unshadowed :: "(v1_Layer \<Rightarrow> hash) \<Rightarrow> v1_Layer list \<Rightarrow> nat \<Rightarrow> bool" where
  "unshadowed key ls j =
     (\<forall>l \<in> set (drop (Suc j) ls). key l = key (ls ! j) \<longrightarrow> l = ls ! j)"

text \<open>
  What a client reads as \<^verbatim>\<open>ConfigFile().RootFS.DiffIDs\<close>: the diff-ID list of the config
  file behind the pointer that \<^verbatim>\<open>ConfigFile\<close> returns, in the heap it leaves.
\<close>

definition RootFS_DiffIDs :: "extern \<Rightarrow> heap \<Rightarrow> image \<Rightarrow> hash list option" where
  "RootFS_DiffIDs X hp img =
     (case ConfigFile X hp img of
        (Inl e, hp', img') \<Rightarrow> None
      | (Inr cp, hp', img') \<Rightarrow>
          map_option (\<lambda>c. rf_DiffIDs (cf_RootFS c)) (deref_config hp' cp))"

section \<open>A small image, used to evaluate the model\<close>

text \<open>
  A base image with two layers, whose manifest and config file are the objects at address
  0 of the heap; serialization and hashing that never fail.
\<close>

definition ex_extern :: extern where
  "ex_extern =
     \<lparr>json_Marshal_config = (\<lambda>c. Inr (concat (rf_DiffIDs (cf_RootFS c)))),
      json_Marshal_manifest = (\<lambda>m. Inr (d_Digest (m_Config m))),
      v1_SHA256 = (\<lambda>b. Inr (''sha256:'' @ b, int (length b)))\<rparr>"

definition ex_layer :: "hash \<Rightarrow> hash \<Rightarrow> v1_Layer" where
  "ex_layer dg df =
     \<lparr>l_Digest = Inr dg, l_DiffID = Inr df, l_Compressed = Inr dg, l_Size = Inr 1,
      l_MediaType = Inr ''layer''\<rparr>"

definition ex_heap :: heap where
  "ex_heap =
     \<lparr>h_manifests =
        [\<lparr>m_MediaType = OCIManifestSchema1,
          m_Config = \<lparr>d_MediaType = ''config'', d_Size = 4, d_Digest = ''sha256:dAdB'',
                      d_Data = None\<rparr>,
          m_Layers = []\<rparr>],
      h_configs =
        [\<lparr>cf_Architecture = ''amd64'',
          cf_RootFS = \<lparr>rf_Type = ''layers'', rf_DiffIDs = [''dA'', ''dB'']\<rparr>,
          cf_History = []\<rparr>]\<rparr>"

definition ex_base :: v1_Image where
  "ex_base =
     \<lparr>im_ConfigFile = Inr (Some 0), im_Manifest = Inr (Some 0),
      im_Layers = Inr [ex_layer ''gA'' ''dA'', ex_layer ''gB'' ''dB''],
      im_MediaType = Inr OCIManifestSchema1\<rparr>"

definition ex_image :: "v1_Image \<Rightarrow> v1_Layer option list \<Rightarrow> image" where
  "ex_image b ovs =
     \<lparr>base = b, overrides = ovs, history = None, computed = False, diffIDs = [],
      byDiffID = Map.empty, byDigest = Map.empty, manifest = None, configFile = None\<rparr>"

definition ex_base_broken :: v1_Image where
  "ex_base_broken = ex_base\<lparr>im_Manifest := Inl (ErrExternal ''manifest unavailable'')\<rparr>"

text \<open>
  Layers and bases that share keys. \<open>ex_layer_docker\<close> is the blob of the second base
  layer under another media type. \<open>ex_base_twice\<close> has the same content at its first and
  third position, compressed in two ways: one diff-ID, two digests. The config file of
  \<open>ex_heap_stale\<close> does not list the diff-ID of the second base layer.
\<close>

definition ex_layer_docker :: v1_Layer where
  "ex_layer_docker = (ex_layer ''gB'' ''dB'')\<lparr>l_MediaType := Inr ''docker-layer''\<rparr>"

definition ex_base_twice :: v1_Image where
  "ex_base_twice =
     ex_base\<lparr>im_Layers := Inr [ex_layer ''gB'' ''dB'', ex_layer ''gA'' ''dA'', ex_layer ''gZ'' ''dB'']\<rparr>"

definition ex_heap_stale :: heap where
  "ex_heap_stale =
     ex_heap\<lparr>h_configs :=
       [\<lparr>cf_Architecture = ''amd64'',
         cf_RootFS = \<lparr>rf_Type = ''layers'', rf_DiffIDs = [''dA'', ''dX'']\<rparr>,
         cf_History = []\<rparr>]\<rparr>"

section \<open>Notions used in the statements about package sif\<close>

text \<open>
  The phase of a change to the cache directory or the file image: staging a blob, deleting
  a content blob, deleting the root index, adding a content blob, adding the root index.
\<close>

fun phase :: "event \<Rightarrow> nat" where
  "phase (EvStage d c) = 0"
| "phase (EvDelete i d) = (if o_DataType d = DataOCIRootIndex then 2 else 1)"
| "phase (EvAdd d) = (if o_DataType d = DataOCIRootIndex then 4 else 3)"

text \<open>
  A primitive that only reads leaves the file image, the trace and the cache directory as
  they are; it may use up an entry of the list of faults.
\<close>

definition same_store :: "world \<Rightarrow> world \<Rightarrow> bool" where
  "same_store w w' = (fi w' = fi w \<and> trace w' = trace w \<and> cacheDir w' = cacheDir w)"

text \<open>
  The walk of the target index, in terms of the references of the index: \<open>staged\<close> are the
  references whose digest is not to be skipped, with their content, in the order of the
  walk and with repetitions; \<open>stage_files\<close> writes them into the cache directory, a later
  file replacing an earlier one of the same name. \<open>walk_ok\<close> relates the lists and the
  state before and after a successful walk over the references \<open>rs\<close>.
\<close>

definition staged :: "hash list \<Rightarrow> blob_ref list \<Rightarrow> (hash \<times> bytes) list" where
  "staged skip rs =
     concat (map (\<lambda>(d, c). if d \<in> set skip then []
                            else case c of Inl e \<Rightarrow> [] | Inr b \<Rightarrow> [(d, b)]) rs)"

definition stage_files :: "(hash \<times> bytes) list \<Rightarrow> (hash \<rightharpoonup> bytes) \<Rightarrow> (hash \<rightharpoonup> bytes)" where
  "stage_files st files = fold (\<lambda>(d, b) f. f(d \<mapsto> b)) st files"

definition walk_ok ::
  "hash list \<Rightarrow> blob_ref list \<Rightarrow> blob_lists \<Rightarrow> blob_lists \<Rightarrow> world \<Rightarrow> world \<Rightarrow> bool" where
  "walk_ok skip rs a b w w' =
     (fst b = fst a @ [d \<leftarrow> map fst rs. d \<notin> set skip] \<and>
      snd b = snd a @ [d \<leftarrow> map fst rs. d \<in> set skip] \<and>
      list_all (\<lambda>(d, c). d \<in> set skip \<or> \<not> isl c) rs \<and>
      fi w' = fi w \<and>
      trace w' = trace w @ map (\<lambda>(d, b). EvStage d b) (staged skip rs) \<and>
      cacheDir w' = map_option (stage_files (staged skip rs)) (cacheDir w))"

text \<open>
  Whatever its outcome, the walk leaves the file image alone and only adds staging events
  to the trace.
\<close>

definition only_stages :: "world \<Rightarrow> world \<Rightarrow> bool" where
  "only_stages w w' =
     (fi w' = fi w \<and> (\<exists>evs. trace w' = trace w @ evs \<and> list_all (\<lambda>ev. phase ev = 0) evs))"

definition walk_res ::
  "hash list \<Rightarrow> error + blob_ref list \<Rightarrow> blob_lists \<Rightarrow> world \<Rightarrow> error + blob_lists \<Rightarrow> world \<Rightarrow> bool" where
  "walk_res skip refs a w r w' =
     (only_stages w w' \<and>
      (\<forall>b. r = Inr b \<longrightarrow> (\<exists>rs. refs = Inr rs \<and> walk_ok skip rs a b w w')))"

text \<open>The objects of a kind in the table of a file image.\<close>

definition slot_of :: "DataType \<Rightarrow> nat \<times> sif_Descriptor option \<Rightarrow> (nat \<times> sif_Descriptor) option" where
  "slot_of t = (\<lambda>(i, slot). case slot of None \<Rightarrow> None
                  | Some d \<Rightarrow> if o_DataType d = t then Some (i, d) else None)"

definition objects_of :: "DataType \<Rightarrow> sif_Descriptor option list \<Rightarrow> sif_Descriptor list" where
  "objects_of t tab = map snd (descriptors_of t tab)"

text \<open>
  The object \<^verbatim>\<open>writeBlobToFileImage\<close> creates from a byte stream; the content of a file of
  the cache directory; the table that is left when every content blob whose digest is not
  in the list has been deleted.
\<close>

definition blob_object :: "(bytes \<Rightarrow> hash) \<Rightarrow> bytes \<Rightarrow> sif_Descriptor" where
  "blob_object H c = \<lparr>o_DataType = DataOCIBlob, o_OCIBlobDigest = Inr (H c), o_data = c\<rparr>"

definition root_object :: "(bytes \<Rightarrow> hash) \<Rightarrow> bytes \<Rightarrow> sif_Descriptor" where
  "root_object H c = \<lparr>o_DataType = DataOCIRootIndex, o_OCIBlobDigest = Inr (H c), o_data = c\<rparr>"

definition cache_lookup :: "world \<Rightarrow> hash \<Rightarrow> bytes option" where
  "cache_lookup w b = (case cacheDir w of None \<Rightarrow> None | Some files \<Rightarrow> files b)"

definition purge :: "hash list \<Rightarrow> sif_Descriptor option list \<Rightarrow> sif_Descriptor option list" where
  "purge keep tab =
     map (\<lambda>slot. case slot of
                   None \<Rightarrow> None
                 | Some d \<Rightarrow>
                     if o_DataType d = DataOCIBlob \<and> o_OCIBlobDigest d \<notin> Inr ` set keep
                     then None else Some d) tab"

text \<open>
  The loop of \<^verbatim>\<open>deleteBlobsExcept\<close> runs over descriptors that are still in the table, and
  changes the table only by emptying slots of content blobs.
\<close>

definition slots_hold :: "(nat \<times> sif_Descriptor) list \<Rightarrow> world \<Rightarrow> bool" where
  "slots_hold descs w =
     (\<forall>(i, d) \<in> set descs. i < length (fi w) \<and> fi w ! i = Some d \<and> o_DataType d = DataOCIBlob)"

definition deletes_blobs :: "world \<Rightarrow> world \<Rightarrow> bool" where
  "deletes_blobs w w' =
     (cacheDir w' = cacheDir w \<and> length (fi w') = length (fi w) \<and>
      (\<forall>j < length (fi w). fi w' ! j = fi w ! j \<or>
          (fi w' ! j = None \<and> (\<exists>d. fi w ! j = Some d \<and> o_DataType d = DataOCIBlob))) \<and>
      (\<exists>evs. trace w' = trace w @ evs \<and> list_all (\<lambda>ev. phase ev = 1) evs))"

text \<open>
  The new events of a run are in the order of their phases, all between two bounds, and
  the run has added no root index.
\<close>

definition progress :: "nat \<Rightarrow> nat \<Rightarrow> world \<Rightarrow> world \<Rightarrow> bool" where
  "progress lo hi w w' =
     ((\<exists>evs. trace w' = trace w @ evs \<and> sorted (map phase evs) \<and>
             list_all (\<lambda>ev. lo \<le> phase ev \<and> phase ev \<le> hi) evs) \<and>
      set (objects_of DataOCIRootIndex (fi w')) \<subseteq> set (objects_of DataOCIRootIndex (fi w)))"

text \<open>
  A run of \<^verbatim>\<open>Update\<close> that went through all its steps: the blobs \<open>blobs\<close> of the file image
  were listed, the references \<open>rs\<close> of the target were walked, the content blobs not
  referenced and the root index at slot \<open>i\<close> were deleted, and the staged contents \<open>cs\<close>
  and the new root index \<open>ri\<close> were added at the end of the table.
\<close>

definition full_run ::
  "(bytes \<Rightarrow> hash) \<Rightarrow> v1_ImageIndex \<Rightarrow> world \<Rightarrow> world \<Rightarrow> hash list \<Rightarrow> blob_ref list \<Rightarrow> bytes \<Rightarrow>
   nat \<Rightarrow> sif_Descriptor \<Rightarrow> event list \<Rightarrow> bytes list \<Rightarrow> bool" where
  "full_run H ii w w' blobs rs ri i d dels cs =
     (map (\<lambda>(i, d). o_OCIBlobDigest d) (descriptors_of DataOCIBlob (fi w)) = map Inr blobs \<and>
      index_refs ii = Inr rs \<and> ii_RawManifest ii = Inr ri \<and>
      list_all (\<lambda>(n, c). n \<in> set blobs \<or> \<not> isl c) rs \<and>
      descriptors_of DataOCIRootIndex (fi w) = [(i, d)] \<and>
      fi w' = (purge [n \<leftarrow> map fst rs. n \<in> set blobs] (fi w))[i := None] @
              map (\<lambda>c. Some (blob_object H c)) cs @ [Some (root_object H ri)] \<and>
      trace w' = trace w @ map (\<lambda>(n, c). EvStage n c) (staged blobs rs) @ dels @
                 [EvDelete i d] @ map (\<lambda>c. EvAdd (blob_object H c)) cs @
                 [EvAdd (root_object H ri)] \<and>
      list_all (\<lambda>ev. phase ev = 1) dels \<and>
      map (stage_files (staged blobs rs) Map.empty) [n \<leftarrow> map fst rs. n \<notin> set blobs] =
        map Some cs)"

text \<open>
  \<^verbatim>\<open>Update\<close> fails before the deletion phase begins: one of its steps up to and including
  the serialization of the new root index returns an error. These steps are the
  application of the options, reading the root index of the file image and its digest,
  the digest of the target, the enumeration of the blobs of the file image, the creation
  of the cache directory, the walk that stages the new blobs, and the serialization.
\<close>

definition fails_before_deletion ::
  "(bytes \<Rightarrow> hash) \<Rightarrow> v1_ImageIndex \<Rightarrow> UpdateOpt list \<Rightarrow> world \<Rightarrow> bool" where
  "fails_before_deletion H ii opts w =
     (case applyOpts opts \<lparr>tempDir = []\<rparr> of
        Inl e \<Rightarrow> True
      | Inr uo \<Rightarrow>
     case ImageIndexFromFileImage w of
        (Inl e, w1) \<Rightarrow> True
      | (Inr sifRootIndex, w1) \<Rightarrow>
     case rootIndex_Digest H sifRootIndex of
        Inl e \<Rightarrow> True
      | Inr sifRootDigest \<Rightarrow>
     case ii_Digest ii of
        Inl e \<Rightarrow> True
      | Inr newRootDigest \<Rightarrow>
     if sifRootDigest = newRootDigest then False
     else
     case sifBlobs w1 of
        (Inl e, w2) \<Rightarrow> True
      | (Inr blobs, w2) \<Rightarrow>
     case os_MkdirTemp (tempDir uo) w2 of
        (Some e, w3) \<Rightarrow> True
      | (None, w3) \<Rightarrow>
     case cacheIndexBlobs ii blobs w3 of
        (Inl e, w4) \<Rightarrow> True
      | (Inr staged_kept, w4) \<Rightarrow>
     case ii_RawManifest ii of
        Inl e \<Rightarrow> True
      | Inr ri \<Rightarrow> False)"

section \<open>A small file image and target indexes, used to evaluate the model\<close>

text \<open>
  The hash of the examples prefixes the content. The file image holds the root index
  \<open>R1\<close> and the content blobs \<open>A\<close>, \<open>B\<close> and \<open>C\<close>.
\<close>

definition ex_H :: "bytes \<Rightarrow> hash" where
  "ex_H b = ''sha256:'' @ b"

definition ex_blob :: "bytes \<Rightarrow> sif_Descriptor" where
  "ex_blob b = \<lparr>o_DataType = DataOCIBlob, o_OCIBlobDigest = Inr (ex_H b), o_data = b\<rparr>"

definition ex_root :: "bytes \<Rightarrow> sif_Descriptor" where
  "ex_root b = \<lparr>o_DataType = DataOCIRootIndex, o_OCIBlobDigest = Inr (ex_H b), o_data = b\<rparr>"

definition ex_world :: "sif_Descriptor option list \<Rightarrow> error option list \<Rightarrow> world" where
  "ex_world tab fs = \<lparr>fi = tab, cacheDir = None, faults = fs, trace = []\<rparr>"

definition ex_store :: "sif_Descriptor option list" where
  "ex_store = [Some (ex_root ''R1''), Some (ex_blob ''A''), Some (ex_blob ''B''), Some (ex_blob ''C'')]"

text \<open>
  Target indexes. \<open>ex_R1\<close> has the digest of the root index of the file image and
  references only \<open>B\<close>. \<open>ex_R2\<close> references the nested index \<open>E\<close>, which references
  \<open>B\<close> and \<open>D\<close>. \<open>ex_R3\<close> serves, for the digest it references, content that has
  another hash. \<open>ex_S\<close> has two images, which share the layer \<open>X\<close>.
\<close>

definition ex_entry :: "string \<Rightarrow> bytes \<Rightarrow> v1_Descriptor" where
  "ex_entry mt b = \<lparr>d_MediaType = mt, d_Size = int (length b), d_Digest = ex_H b, d_Data = None\<rparr>"

definition ex_R1 :: v1_ImageIndex where
  "ex_R1 = ImageIndex (Inr (ex_H ''R1'')) (Inr ''R1'') (Inr [ex_entry ''blob'' ''B''])
             [] [] [(ex_H ''B'', Inr ''B'')]"

definition ex_E :: v1_ImageIndex where
  "ex_E = ImageIndex (Inr (ex_H ''E'')) (Inr ''E'')
            (Inr [ex_entry ''blob'' ''B'', ex_entry ''blob'' ''D''])
            [] [] [(ex_H ''B'', Inr ''B''), (ex_H ''D'', Inr ''D'')]"

definition ex_R2 :: v1_ImageIndex where
  "ex_R2 = ImageIndex (Inr (ex_H ''R2'')) (Inr ''R2'') (Inr [ex_entry OCIImageIndex ''E''])
             [(ex_H ''E'', Inr ex_E)] [] []"

definition ex_R3 :: v1_ImageIndex where
  "ex_R3 = ImageIndex (Inr (ex_H ''R3'')) (Inr ''R3'')
             (Inr [\<lparr>d_MediaType = ''blob'', d_Size = 1, d_Digest = ''sha256:Z'', d_Data = None\<rparr>])
             [] [] [(''sha256:Z'', Inr ''Y'')]"

definition ex_sif_layer :: "bytes \<Rightarrow> v1_Layer" where
  "ex_sif_layer b =
     \<lparr>l_Digest = Inr (ex_H b), l_DiffID = Inr (''diff:'' @ b), l_Compressed = Inr b,
      l_Size = Inr (int (length b)), l_MediaType = Inr ''layer''\<rparr>"

definition ex_img :: "bytes \<Rightarrow> bytes \<Rightarrow> bytes \<Rightarrow> index_Image" where
  "ex_img l c m =
     \<lparr>i_Layers = Inr [ex_sif_layer l],
      i_Manifest = Inr \<lparr>m_MediaType = OCIManifestSchema1, m_Config = ex_entry ''config'' c,
                        m_Layers = [ex_entry ''layer'' l]\<rparr>,
      i_RawConfigFile = Inr c, i_RawManifest = Inr m\<rparr>"

definition ex_S :: v1_ImageIndex where
  "ex_S = ImageIndex (Inr (ex_H ''S'')) (Inr ''S'')
            (Inr [ex_entry OCIManifestSchema1 ''M1'', ex_entry OCIManifestSchema1 ''M2''])
            [] [(ex_H ''M1'', Inr (ex_img ''X'' ''C1'' ''M1'')),
                (ex_H ''M2'', Inr (ex_img ''X'' ''C2'' ''M2''))] []"

text \<open>
  A state in which the cache directory exists and is empty, and two lists of faults: the
  first makes the nineteenth primitive fail, which is the second addition of a blob in
  the run of \<open>ex_R2\<close>; the second makes the fifth fail, which is the first copy into the
  cache directory.
\<close>

definition ex_staging :: world where
  "ex_staging = \<lparr>fi = [Some (ex_root ''R1'')], cacheDir = Some Map.empty, faults = [],
                  trace = []\<rparr>"

definition ex_faults_add :: "error option list" where
  "ex_faults_add =
     [None, None, None, None, None, None, None, None, None,
      None, None, None, None, None, None, None, None, None,
      Some (ErrExternal ''disk full'')]"

definition ex_faults_stage :: "error option list" where
  "ex_faults_stage = [None, None, None, None, Some (ErrExternal ''disk full'')]"

section \<open>Properties of package mutate\<close>

lemma take_eq_iff_append: "take (length xs) ys = xs \<longleftrightarrow> (\<exists>zs. ys = xs @ zs)"
  by (metis append_eq_conv_conj append_take_drop_id)

lemma heap_extends_iff:
  "heap_extends hp hp' \<longleftrightarrow>
     (\<exists>ms cs. h_manifests hp' = h_manifests hp @ ms \<and> h_configs hp' = h_configs hp @ cs)"
  by (auto simp: heap_extends_def take_eq_iff_append)

lemma heap_extends_refl: "heap_extends hp hp"
  by (simp add: heap_extends_def)

lemma heap_extends_trans: "heap_extends a b \<Longrightarrow> heap_extends b c \<Longrightarrow> heap_extends a c"
  by (auto simp: heap_extends_iff)

lemma heap_extends_deref_manifest:
  "heap_extends hp hp' \<Longrightarrow> deref_manifest hp p = Some m \<Longrightarrow> deref_manifest hp' p = Some m"
  by (auto simp: heap_extends_iff deref_manifest_def nth_append split: option.splits if_splits)

lemma heap_extends_deref_config:
  "heap_extends hp hp' \<Longrightarrow> deref_config hp p = Some c \<Longrightarrow> deref_config hp' p = Some c"
  by (auto simp: heap_extends_iff deref_config_def nth_append split: option.splits if_splits)

lemma ConfigFile_DeepCopy_cases:
  assumes "ConfigFile_DeepCopy hp p = (q, hp1)"
  shows "h_manifests hp1 = h_manifests hp \<and>
         ((q = None \<and> hp1 = hp) \<or>
          (\<exists>c. deref_config hp p = Some c \<and> q = Some (length (h_configs hp)) \<and>
               h_configs hp1 = h_configs hp @ [c]))"
  using assms by (auto simp: ConfigFile_DeepCopy_def split: option.splits)

lemma Manifest_DeepCopy_cases:
  assumes "Manifest_DeepCopy hp p = (q, hp1)"
  shows "h_configs hp1 = h_configs hp \<and>
         ((q = None \<and> hp1 = hp) \<or>
          (\<exists>m. deref_manifest hp p = Some m \<and> q = Some (length (h_manifests hp)) \<and>
               h_manifests hp1 = h_manifests hp @ [m]))"
  using assms by (auto simp: Manifest_DeepCopy_def split: option.splits)

lemma populate_unchanged_on_error:
  "populate X hp img = (Some e, hp', img') \<Longrightarrow> img' = img"
  unfolding populate_def Let_def
  by (auto split: if_splits sum.splits prod.splits option.splits)

lemma populate_error_not_computed:
  "populate X hp img = (Some e, hp', img') \<Longrightarrow> \<not> computed img"
  unfolding populate_def Let_def
  by (auto split: if_splits sum.splits prod.splits option.splits)

lemma populate_success_computed:
  "populate X hp img = (None, hp', img') \<Longrightarrow> computed img'"
  unfolding populate_def Let_def
  by (auto split: if_splits sum.splits prod.splits option.splits)

lemma populate_heap_extends:
  assumes "populate X hp img = (r, hp', img')"
  shows "heap_extends hp hp'"
proof (cases "computed img")
  case True
  with assms show ?thesis by (simp add: populate_def heap_extends_refl)
next
  case False
  show ?thesis
    using assms False
    unfolding populate_def Let_def heap_extends_iff
    by (auto split: sum.splits prod.splits option.splits if_splits
          simp: assign_manifest_def assign_config_def list_update_append
          dest!: ConfigFile_DeepCopy_cases Manifest_DeepCopy_cases)
qed

lemma Manifest_heap: "Manifest X hp img = (r, hp', img') \<Longrightarrow> heap_extends hp hp'"
  by (auto simp: Manifest_def split: prod.splits option.splits dest: populate_heap_extends)

lemma ConfigFile_heap: "ConfigFile X hp img = (r, hp', img') \<Longrightarrow> heap_extends hp hp'"
  by (auto simp: ConfigFile_def split: prod.splits option.splits dest: populate_heap_extends)

lemma RawManifest_heap: "RawManifest X hp img = (r, hp', img') \<Longrightarrow> heap_extends hp hp'"
  by (auto simp: RawManifest_def split: prod.splits option.splits dest: populate_heap_extends)

lemma RawConfigFile_heap: "RawConfigFile X hp img = (r, hp', img') \<Longrightarrow> heap_extends hp hp'"
  by (auto simp: RawConfigFile_def split: prod.splits option.splits dest: populate_heap_extends)

lemma LayerByDigest_heap: "LayerByDigest X hp img h = (r, hp', img') \<Longrightarrow> heap_extends hp hp'"
  by (auto simp: LayerByDigest_def split: prod.splits option.splits dest: populate_heap_extends)

lemma LayerByDiffID_heap: "LayerByDiffID X hp img h = (r, hp', img') \<Longrightarrow> heap_extends hp hp'"
  by (auto simp: LayerByDiffID_def split: prod.splits option.splits dest: populate_heap_extends)

lemma Layers_loop_heap:
  "Layers_loop X hs ls hp img = (r, hp', img') \<Longrightarrow> heap_extends hp hp'"
proof (induction hs arbitrary: ls hp img)
  case Nil
  then show ?case by (simp add: heap_extends_refl)
next
  case (Cons h hs)
  obtain r1 hp1 img1 where s: "LayerByDiffID X hp img h = (r1, hp1, img1)"
    by (cases "LayerByDiffID X hp img h") auto
  have e1: "heap_extends hp hp1" using s by (rule LayerByDiffID_heap)
  show ?case
  proof (cases r1)
    case (Inl e)
    with Cons.prems s e1 show ?thesis by simp
  next
    case (Inr l)
    with Cons.prems s have "Layers_loop X hs (ls @ [l]) hp1 img1 = (r, hp', img')" by simp
    then have "heap_extends hp1 hp'" by (rule Cons.IH)
    with e1 show ?thesis by (rule heap_extends_trans)
  qed
qed

lemma Layers_heap: "Layers X hp img = (r, hp', img') \<Longrightarrow> heap_extends hp hp'"
  by (auto simp: Layers_def split: prod.splits option.splits
        dest: populate_heap_extends Layers_loop_heap intro: heap_extends_trans)

lemma RawManifest_heap': "heap_extends hp (fst (snd (RawManifest X hp img)))"
  by (cases "RawManifest X hp img") (auto dest: RawManifest_heap)

lemma RawConfigFile_heap': "heap_extends hp (fst (snd (RawConfigFile X hp img)))"
  by (cases "RawConfigFile X hp img") (auto dest: RawConfigFile_heap)

lemma call_heap: "heap_extends hp (fst (call X c (hp, img)))"
proof (cases c)
  case CallMediaType
  then show ?thesis by (simp add: heap_extends_refl)
next
  case CallSize
  obtain r hp1 img1 where p: "populate X hp img = (r, hp1, img1)"
    by (cases "populate X hp img") auto
  have "heap_extends hp hp1" using p by (rule populate_heap_extends)
  moreover have "heap_extends hp1 (fst (snd (RawManifest X hp1 img1)))"
    by (rule RawManifest_heap')
  ultimately show ?thesis using CallSize p
    by (cases r) (auto intro: heap_extends_trans)
next
  case CallDigest
  obtain r hp1 img1 where p: "populate X hp img = (r, hp1, img1)"
    by (cases "populate X hp img") auto
  have "heap_extends hp hp1" using p by (rule populate_heap_extends)
  moreover have "heap_extends hp1 (fst (snd (RawManifest X hp1 img1)))"
    by (rule RawManifest_heap')
  ultimately show ?thesis using CallDigest p
    by (cases r) (auto intro: heap_extends_trans)
next
  case CallConfigName
  obtain r hp1 img1 where p: "populate X hp img = (r, hp1, img1)"
    by (cases "populate X hp img") auto
  have "heap_extends hp hp1" using p by (rule populate_heap_extends)
  moreover have "heap_extends hp1 (fst (snd (RawConfigFile X hp1 img1)))"
    by (rule RawConfigFile_heap')
  ultimately show ?thesis using CallConfigName p
    by (cases r) (auto intro: heap_extends_trans)
next
  case CallManifest
  then show ?thesis by (cases "Manifest X hp img") (auto dest: Manifest_heap)
next
  case CallRawManifest
  then show ?thesis by (simp add: RawManifest_heap')
next
  case CallConfigFile
  then show ?thesis by (cases "ConfigFile X hp img") (auto dest: ConfigFile_heap)
next
  case CallRawConfigFile
  then show ?thesis by (simp add: RawConfigFile_heap')
next
  case CallLayers
  then show ?thesis by (cases "Layers X hp img") (auto dest: Layers_heap)
next
  case (CallLayerByDigest h)
  then show ?thesis by (cases "LayerByDigest X hp img h") (auto dest: LayerByDigest_heap)
next
  case (CallLayerByDiffID h)
  then show ?thesis by (cases "LayerByDiffID X hp img h") (auto dest: LayerByDiffID_heap)
qed

lemma calls_heap: "heap_extends (fst s) (fst (calls X cs s))"
proof (induction cs arbitrary: s)
  case Nil
  then show ?case by (simp add: heap_extends_refl)
next
  case (Cons c cs)
  have "heap_extends (fst s) (fst (call X c s))"
    using call_heap[of "fst s" X c "snd s"] by simp
  moreover have "heap_extends (fst (call X c s)) (fst (calls X cs (call X c s)))"
    by (rule Cons.IH)
  ultimately show ?case by (auto intro: heap_extends_trans)
qed

text \<open>
  Claim C9. Whatever accessors are called on the image, and in whatever order, every
  manifest and every config file that was in the heap before the calls is there afterwards
  with the same contents; this holds in particular for the manifest and the config file
  of the base. \<^verbatim>\<open>populate\<close> only writes to the copies it has allocated itself.
\<close>

theorem base_never_mutated:
  assumes "calls X cs (hp, img) = (hp', img')"
  shows "(\<forall>p m. deref_manifest hp p = Some m \<longrightarrow> deref_manifest hp' p = Some m) \<and>
         (\<forall>p c. deref_config hp p = Some c \<longrightarrow> deref_config hp' p = Some c)"
proof -
  have "heap_extends hp hp'" using calls_heap[of "(hp, img)" X cs] assms by simp
  then show ?thesis
    by (blast intro: heap_extends_deref_manifest heap_extends_deref_config)
qed

lemma layer_ok_digest:
  "layer_ok l \<Longrightarrow> d_Digest (descriptor_of l) = digest_of l \<and> l_Digest l = Inr (digest_of l)
     \<and> l_DiffID l = Inr (diffID_of l) \<and> partial_Descriptor l = Inr (descriptor_of l)"
  by (auto simp: layer_ok_def descriptor_of_def digest_of_def diffID_of_def partial_Descriptor_def
        split: sum.splits)

lemma populate_loop_ok:
  "slots_in_range ls i ovs \<Longrightarrow> list_all layer_ok (effective ls i ovs) \<Longrightarrow>
   populate_loop ls i ovs (L, D, F, G) =
     Inr (L @ map descriptor_of (effective ls i ovs), D @ map diffID_of (effective ls i ovs),
          index_layers diffID_of (effective ls i ovs) F,
          index_layers digest_of (effective ls i ovs) G)"
proof (induction ovs arbitrary: i L D F G)
  case Nil
  then show ?case by simp
next
  case (Cons ov ovs)
  define l where "l = (case ov of Some l \<Rightarrow> l | None \<Rightarrow> ls ! i)"
  have ok: "layer_ok l" using Cons.prems(2) by (simp add: l_def)
  note f = layer_ok_digest[OF ok]
  have sel: "(case ov of Some l \<Rightarrow> Inr l
              | None \<Rightarrow> if i < length ls then Inr (ls ! i) else Inl PanicIndexOutOfRange) = Inr l"
    using Cons.prems(1) by (cases ov) (auto simp: l_def)
  have eff: "effective ls i (ov # ovs) = l # effective ls (Suc i) ovs"
    by (simp add: l_def)
  have rest: "slots_in_range ls (Suc i) ovs" "list_all layer_ok (effective ls (Suc i) ovs)"
    using Cons.prems by auto
  show ?case
    unfolding eff using f by (simp add: sel Cons.IH[OF rest] fun_upd_def)
qed

lemma populate_loop_Inr:
  "populate_loop ls i ovs acc = Inr r \<Longrightarrow>
   slots_in_range ls i ovs \<and> list_all layer_ok (effective ls i ovs)"
proof (induction ovs arbitrary: i acc)
  case Nil
  then show ?case by simp
next
  case (Cons ov ovs)
  obtain L D F G where acc: "acc = (L, D, F, G)" by (cases acc) auto
  show ?case
    using Cons.prems unfolding acc
    by (auto split: option.splits sum.splits if_splits dest!: Cons.IH
          simp: layer_ok_def)
qed

lemma effective_length: "length (effective ls i ovs) = length ovs"
  by (induction ovs arbitrary: i) auto

lemma effective_nth:
  "j < length ovs \<Longrightarrow>
   effective ls i ovs ! j = (case ovs ! j of Some l \<Rightarrow> l | None \<Rightarrow> ls ! (i + j))"
proof (induction ovs arbitrary: i j)
  case Nil
  then show ?case by simp
next
  case (Cons ov ovs)
  then show ?case by (cases j) (auto split: option.splits)
qed

lemma effective_single_override:
  assumes "i < length ls"
  shows "effective ls 0 ((replicate (length ls) None)[i := Some L]) = ls[i := L]"
proof (rule nth_equalityI)
  show "length (effective ls 0 ((replicate (length ls) None)[i := Some L])) = length (ls[i := L])"
    by (simp add: effective_length)
next
  fix j assume "j < length (effective ls 0 ((replicate (length ls) None)[i := Some L]))"
  then have j: "j < length ls" by (simp add: effective_length)
  then show "effective ls 0 ((replicate (length ls) None)[i := Some L]) ! j = ls[i := L] ! j"
    using assms by (simp add: effective_nth nth_list_update)
qed

lemma populate_success_facts:
  assumes "populate X hp img = (None, hp', img')" and "\<not> computed img"
  shows "\<exists>ls layers c m config.
           im_Layers (base img) = Inr ls \<and>
           populate_loop ls 0 (overrides img) ([], [], Map.empty, Map.empty) =
             Inr (layers, diffIDs img', byDiffID img', byDigest img') \<and>
           computed img' \<and>
           deref_config hp' (configFile img') = Some c \<and>
           rf_DiffIDs (cf_RootFS c) = diffIDs img' \<and>
           deref_manifest hp' (manifest img') = Some m \<and>
           m_Layers m = layers \<and>
           json_Marshal_config X c = Inr config \<and>
           v1_SHA256 X config = Inr (d_Digest (m_Config m), d_Size (m_Config m))"
  using assms
  unfolding populate_def Let_def
  by (auto split: sum.splits prod.splits option.splits if_splits
        simp: assign_manifest_def assign_config_def deref_config_def deref_manifest_def)

lemma populate_succeeds:
  assumes nc: "\<not> computed img"
    and cf: "im_ConfigFile (base img) = Inr cp0" "deref_config hp cp0 = Some c0"
    and mf: "im_Manifest (base img) = Inr mp0" "deref_manifest hp mp0 = Some m0"
    and ls: "im_Layers (base img) = Inr ls"
    and slots: "slots_in_range ls 0 (overrides img)"
    and ok: "list_all layer_ok (effective ls 0 (overrides img))"
    and js: "\<forall>c. \<not> isl (json_Marshal_config X c)"
    and sh: "\<forall>b. \<not> isl (v1_SHA256 X b)"
  shows "\<exists>hp' img'. populate X hp img = (None, hp', img') \<and> computed img' \<and>
           diffIDs img' = map diffID_of (effective ls 0 (overrides img))"
proof -
  have js': "json_Marshal_config X c = Inl e \<Longrightarrow> False" for c e
    using js[rule_format, of c] by simp
  have sh': "v1_SHA256 X b = Inl e \<Longrightarrow> False" for b e
    using sh[rule_format, of b] by simp
  show ?thesis
    using nc cf mf ls
    unfolding populate_def Let_def
    by (auto simp: ConfigFile_DeepCopy_def Manifest_DeepCopy_def deref_config_def
          deref_manifest_def assign_manifest_def assign_config_def
          populate_loop_ok[OF slots ok]
          split: sum.splits option.splits if_splits dest: js' sh')
qed

lemma LayerByDiffID_computed:
  "computed img \<Longrightarrow> byDiffID img h = Some l \<Longrightarrow> LayerByDiffID X hp img h = (Inr l, hp, img)"
  by (simp add: LayerByDiffID_def populate_def)

lemma Layers_loop_lookup:
  "computed img \<Longrightarrow> list_all (\<lambda>h. byDiffID img h \<noteq> None) hs \<Longrightarrow>
   Layers_loop X hs acc hp img = (Inr (acc @ map (\<lambda>h. the (byDiffID img h)) hs), hp, img)"
  by (induction hs arbitrary: acc) (auto simp: LayerByDiffID_computed)

lemma index_layers_present:
  "m k \<noteq> None \<or> k \<in> key ` set ls \<Longrightarrow> index_layers key ls m k \<noteq> None"
  by (induction ls arbitrary: m) auto

lemma index_layers_keep:
  "m k = Some a \<Longrightarrow> \<forall>l \<in> set ls. key l = k \<longrightarrow> l = a \<Longrightarrow>
   index_layers key ls m k = Some a"
  by (induction ls arbitrary: m) auto

lemma index_layers_unshadowed:
  "j < length ls \<Longrightarrow> unshadowed key ls j \<Longrightarrow>
   index_layers key ls m (key (ls ! j)) = Some (ls ! j)"
proof (induction ls arbitrary: j m)
  case Nil
  then show ?case by simp
next
  case (Cons a ls)
  show ?case
  proof (cases j)
    case 0
    then show ?thesis using Cons.prems by (simp add: unshadowed_def index_layers_keep)
  next
    case (Suc j')
    then show ?thesis using Cons.prems Cons.IH[of j'] by (simp add: unshadowed_def)
  qed
qed

text \<open>
  What a successful pass leaves behind, in terms of the effective layers.
\<close>

lemma populate_effective:
  assumes p: "populate X hp img = (None, hp', img')"
    and nc: "\<not> computed img"
    and ls: "im_Layers (base img) = Inr ls"
  shows "\<exists>m c. computed img' \<and>
           list_all layer_ok (effective ls 0 (overrides img)) \<and>
           deref_manifest hp' (manifest img') = Some m \<and>
           m_Layers m = map descriptor_of (effective ls 0 (overrides img)) \<and>
           deref_config hp' (configFile img') = Some c \<and>
           rf_DiffIDs (cf_RootFS c) = map diffID_of (effective ls 0 (overrides img)) \<and>
           diffIDs img' = map diffID_of (effective ls 0 (overrides img)) \<and>
           byDiffID img' = index_layers diffID_of (effective ls 0 (overrides img)) Map.empty \<and>
           byDigest img' = index_layers digest_of (effective ls 0 (overrides img)) Map.empty \<and>
           Layers X hp img =
             (Inr (map (\<lambda>l. the (byDiffID img' (diffID_of l))) (effective ls 0 (overrides img))),
              hp', img')"
proof -
  let ?eff = "effective ls 0 (overrides img)"
  from populate_success_facts[OF p nc] ls obtain layers c m where
    loop: "populate_loop ls 0 (overrides img) ([], [], Map.empty, Map.empty) =
             Inr (layers, diffIDs img', byDiffID img', byDigest img')"
    and comp: "computed img'"
    and cfg: "deref_config hp' (configFile img') = Some c" "rf_DiffIDs (cf_RootFS c) = diffIDs img'"
    and mf: "deref_manifest hp' (manifest img') = Some m" "m_Layers m = layers"
    by auto
  from populate_loop_Inr[OF loop] have slots: "slots_in_range ls 0 (overrides img)"
    and ok: "list_all layer_ok ?eff" by simp_all
  from populate_loop_ok[OF slots ok, of "[]" "[]" Map.empty Map.empty] loop
  have lay: "layers = map descriptor_of ?eff"
    and dids: "diffIDs img' = map diffID_of ?eff"
    and bydf: "byDiffID img' = index_layers diffID_of ?eff Map.empty"
    and bydg: "byDigest img' = index_layers digest_of ?eff Map.empty"
    by simp_all
  have pres: "list_all (\<lambda>h. byDiffID img' h \<noteq> None) (map diffID_of ?eff)"
    unfolding bydf list_all_iff
  proof
    fix h assume "h \<in> set (map diffID_of ?eff)"
    then have "h \<in> diffID_of ` set ?eff" by simp
    then show "index_layers diffID_of ?eff Map.empty h \<noteq> None"
      by (rule index_layers_present[OF disjI2])
  qed
  have "Layers X hp img = Layers_loop X (map diffID_of ?eff) [] hp' img'"
    using p by (simp add: Layers_def dids)
  also have "\<dots> = (Inr ([] @ map (\<lambda>h. the (byDiffID img' h)) (map diffID_of ?eff)), hp', img')"
    by (rule Layers_loop_lookup[OF comp pres])
  finally have L: "Layers X hp img =
      (Inr (map (\<lambda>l. the (byDiffID img' (diffID_of l))) ?eff), hp', img')"
    by (simp add: comp_def)
  show ?thesis using comp ok cfg mf lay dids bydf bydg L by simp
qed

text \<open>
  Claim C3, as amended. A difference between the length of the override list and the
  number of base layers does not make the compute-once pass fail. When the lengths differ,
  every empty slot still has a base layer at its index, the base hands out its config
  file, manifest and layers, and descriptor, diff-ID, serialization and hashing succeed,
  then \<^verbatim>\<open>populate\<close> returns no error, and so do \<^verbatim>\<open>Manifest\<close>, \<^verbatim>\<open>ConfigFile\<close> and \<^verbatim>\<open>Layers\<close>.
  The layer list of the manifest and the diff-ID list of the config file then have one
  entry per slot of the override list: the descriptor and the diff-ID of the effective
  layer of the slot, which is the override if there is one and the base layer at that
  index otherwise. The two lookup maps are the effective layers entered in the order of
  the slots, a later layer replacing an earlier one under the same key, and \<^verbatim>\<open>Layers\<close>
  returns, slot by slot, the layer that the diff-ID map holds for the diff-ID of the
  effective layer of the slot.
\<close>

theorem populate_no_length_check:
  assumes "\<not> computed img"
    and "im_ConfigFile (base img) = Inr cp0" and "deref_config hp cp0 = Some c0"
    and "im_Manifest (base img) = Inr mp0" and "deref_manifest hp mp0 = Some m0"
    and "im_Layers (base img) = Inr ls"
    and "length (overrides img) \<noteq> length ls"
    and "slots_in_range ls 0 (overrides img)"
    and "list_all layer_ok (effective ls 0 (overrides img))"
    and "\<forall>c. \<not> isl (json_Marshal_config X c)"
    and "\<forall>b. \<not> isl (v1_SHA256 X b)"
  shows "\<exists>hp' img' m c. populate X hp img = (None, hp', img') \<and> computed img' \<and>
           fst (Manifest X hp img) = Inr (manifest img') \<and>
           deref_manifest hp' (manifest img') = Some m \<and>
           m_Layers m = map descriptor_of (effective ls 0 (overrides img)) \<and>
           length (m_Layers m) = length (overrides img) \<and>
           fst (ConfigFile X hp img) = Inr (configFile img') \<and>
           deref_config hp' (configFile img') = Some c \<and>
           rf_DiffIDs (cf_RootFS c) = map diffID_of (effective ls 0 (overrides img)) \<and>
           length (rf_DiffIDs (cf_RootFS c)) = length (overrides img) \<and>
           diffIDs img' = map diffID_of (effective ls 0 (overrides img)) \<and>
           length (diffIDs img') = length (overrides img) \<and>
           byDiffID img' = index_layers diffID_of (effective ls 0 (overrides img)) Map.empty \<and>
           byDigest img' = index_layers digest_of (effective ls 0 (overrides img)) Map.empty \<and>
           fst (Layers X hp img) =
             Inr (map (\<lambda>l. the (byDiffID img' (diffID_of l)))
                    (effective ls 0 (overrides img)))"
proof -
  from populate_succeeds[OF assms(1-6) assms(8-11)] obtain hp' img' where
    p: "populate X hp img = (None, hp', img')" by blast
  from populate_effective[OF p assms(1) assms(6)] obtain m c where
    f: "computed img'"
      "deref_manifest hp' (manifest img') = Some m"
      "m_Layers m = map descriptor_of (effective ls 0 (overrides img))"
      "deref_config hp' (configFile img') = Some c"
      "rf_DiffIDs (cf_RootFS c) = map diffID_of (effective ls 0 (overrides img))"
      "diffIDs img' = map diffID_of (effective ls 0 (overrides img))"
      "byDiffID img' = index_layers diffID_of (effective ls 0 (overrides img)) Map.empty"
      "byDigest img' = index_layers digest_of (effective ls 0 (overrides img)) Map.empty"
      "Layers X hp img =
         (Inr (map (\<lambda>l. the (byDiffID img' (diffID_of l))) (effective ls 0 (overrides img))),
          hp', img')"
    by blast
  have a: "fst (Manifest X hp img) = Inr (manifest img')"
    "fst (ConfigFile X hp img) = Inr (configFile img')"
    using p by (simp_all add: Manifest_def ConfigFile_def)
  have len: "length (m_Layers m) = length (overrides img)"
    "length (rf_DiffIDs (cf_RootFS c)) = length (overrides img)"
    "length (diffIDs img') = length (overrides img)"
    using f by (simp_all add: effective_length)
  have L: "fst (Layers X hp img) =
      Inr (map (\<lambda>l. the (byDiffID img' (diffID_of l))) (effective ls 0 (overrides img)))"
    using f(9) by simp
  show ?thesis
    using p f(1-8) a len L by blast
qed

text \<open>
  Claim C4. Once the compute-once pass has succeeded, \<^verbatim>\<open>LayerByDigest\<close> and
  \<^verbatim>\<open>LayerByDiffID\<close> return \<^verbatim>\<open>errLayerNotFound\<close> for a hash that is not in the lookup map,
  and the mapped layer, without error, for a hash that is.
\<close>

theorem lookup_not_found:
  assumes "populate X hp img = (None, hp', img')"
  shows "(byDigest img' h = None \<longrightarrow> fst (LayerByDigest X hp img h) = Inl ErrLayerNotFound) \<and>
         (byDiffID img' h = None \<longrightarrow> fst (LayerByDiffID X hp img h) = Inl ErrLayerNotFound) \<and>
         (\<forall>l. byDigest img' h = Some l \<longrightarrow> fst (LayerByDigest X hp img h) = Inr l) \<and>
         (\<forall>l. byDiffID img' h = Some l \<longrightarrow> fst (LayerByDiffID X hp img h) = Inr l)"
  using assms by (auto simp: LayerByDigest_def LayerByDiffID_def)

text \<open>
  Claim C5. If \<^verbatim>\<open>populate\<close> returns an error, the receiver is exactly as it was before the
  call, and it is still not computed, so the next call runs the pass again. If the
  receiver has changed, the call succeeded: the loop over the overrides, the
  serialization of the config file and its hashing all returned without error, and the
  derived fields are the results of that loop.
\<close>

theorem populate_commits_atomically:
  assumes "populate X hp img = (r, hp', img')"
  shows "(r \<noteq> None \<longrightarrow> img' = img \<and> \<not> computed img') \<and>
         (img' \<noteq> img \<longrightarrow> r = None \<and> computed img' \<and>
            (\<exists>ls layers c config hd.
               im_Layers (base img) = Inr ls \<and>
               populate_loop ls 0 (overrides img) ([], [], Map.empty, Map.empty) =
                 Inr (layers, diffIDs img', byDiffID img', byDigest img') \<and>
               deref_config hp' (configFile img') = Some c \<and>
               json_Marshal_config X c = Inr config \<and>
               v1_SHA256 X config = Inr hd))"
proof (cases r)
  case None
  show ?thesis
  proof (cases "computed img")
    case True
    with assms None show ?thesis by (simp add: populate_def)
  next
    case False
    from populate_success_facts[OF assms[unfolded None] False] None
    show ?thesis by blast
  qed
next
  case (Some e)
  with assms have "img' = img" "\<not> computed img"
    by (auto dest: populate_unchanged_on_error populate_error_not_computed)
  with Some show ?thesis by simp
qed

text \<open>
  Claim C6, as amended. Let the override list be empty except for \<open>L\<close> at index \<open>i\<close>, and
  let the pass succeed.

  \<^item> \<^verbatim>\<open>ConfigFile().RootFS.DiffIDs\<close> holds the diff-ID of \<open>L\<close> at index \<open>i\<close> and the diff-ID
    of the base layer at every other index; such an entry is the entry of the config file
    of the base wherever that one is the diff-ID of the base layer.
  \<^item> \<^verbatim>\<open>Layers()\<close> has as many entries as the base has layers; its entry at index \<open>i\<close> is
    \<open>L\<close>, and its entry at another index is the base layer, at every index whose
    layer is not shadowed: no layer at a later position, other than that layer itself,
    has its diff-ID.
  \<^item> \<^verbatim>\<open>LayerByDiffID\<close> finds \<open>L\<close> under its diff-ID when no base layer after index \<open>i\<close>,
    other than \<open>L\<close> itself, has that diff-ID, and \<^verbatim>\<open>LayerByDigest\<close> finds \<open>L\<close> under its
    digest when no base layer after index \<open>i\<close>, other than \<open>L\<close> itself, has that digest.
\<close>

theorem layer_substitution:
  assumes nc: "\<not> computed img"
    and ls: "im_Layers (base img) = Inr ls"
    and i: "i < length ls"
    and ov: "overrides img = (replicate (length ls) None)[i := Some L]"
    and p: "populate X hp img = (None, hp', img')"
  shows "\<exists>ds out.
           RootFS_DiffIDs X hp img = Some ds \<and> length ds = length ls \<and>
           l_DiffID L = Inr (ds ! i) \<and>
           (\<forall>j < length ls. j \<noteq> i \<longrightarrow> l_DiffID (ls ! j) = Inr (ds ! j)) \<and>
           (\<forall>cp0 c0 j. im_ConfigFile (base img) = Inr cp0 \<and> deref_config hp cp0 = Some c0 \<and>
              j < length ls \<and> j \<noteq> i \<and> l_DiffID (ls ! j) = Inr (rf_DiffIDs (cf_RootFS c0) ! j) \<longrightarrow>
              ds ! j = rf_DiffIDs (cf_RootFS c0) ! j) \<and>
           fst (Layers X hp img) = Inr out \<and> length out = length ls \<and>
           (unshadowed diffID_of (ls[i := L]) i \<longrightarrow> out ! i = L) \<and>
           (\<forall>j < length ls. j \<noteq> i \<and> unshadowed diffID_of (ls[i := L]) j \<longrightarrow> out ! j = ls ! j) \<and>
           l_DiffID L = Inr (diffID_of L) \<and>
           (unshadowed diffID_of (ls[i := L]) i \<longrightarrow>
              fst (LayerByDiffID X hp img (diffID_of L)) = Inr L) \<and>
           l_Digest L = Inr (digest_of L) \<and>
           (unshadowed digest_of (ls[i := L]) i \<longrightarrow>
              fst (LayerByDigest X hp img (digest_of L)) = Inr L)"
proof -
  let ?eff = "ls[i := L]"
  let ?out = "map (\<lambda>l. the (byDiffID img' (diffID_of l))) ?eff"
  have eff: "effective ls 0 (overrides img) = ?eff"
    unfolding ov by (rule effective_single_override[OF i])
  from populate_effective[OF p nc ls] obtain c where
    ok: "list_all layer_ok ?eff"
    and cfg: "deref_config hp' (configFile img') = Some c"
      "rf_DiffIDs (cf_RootFS c) = map diffID_of ?eff"
    and bydf: "byDiffID img' = index_layers diffID_of ?eff Map.empty"
    and bydg: "byDigest img' = index_layers digest_of ?eff Map.empty"
    and lay: "Layers X hp img = (Inr ?out, hp', img')"
    unfolding eff by blast
  have okl: "layer_ok (?eff ! j)" if "j < length ls" for j
    using ok that by (simp add: list_all_length)
  have lookf: "byDiffID img' (diffID_of (?eff ! j)) = Some (?eff ! j)"
    if "j < length ls" "unshadowed diffID_of ?eff j" for j
    unfolding bydf using that by (simp add: index_layers_unshadowed)
  have lookg: "byDigest img' (digest_of (?eff ! j)) = Some (?eff ! j)"
    if "j < length ls" "unshadowed digest_of ?eff j" for j
    unfolding bydg using that by (simp add: index_layers_unshadowed)
  have 1: "RootFS_DiffIDs X hp img = Some (map diffID_of ?eff)"
    using p cfg by (simp add: RootFS_DiffIDs_def ConfigFile_def)
  have 2: "l_DiffID L = Inr (map diffID_of ?eff ! i)" "l_DiffID L = Inr (diffID_of L)"
    "l_Digest L = Inr (digest_of L)"
    using layer_ok_digest[OF okl[OF i]] i by simp_all
  have 3: "l_DiffID (ls ! j) = Inr (map diffID_of ?eff ! j)" if "j < length ls" "j \<noteq> i" for j
    using layer_ok_digest[OF okl[OF that(1)]] that by simp
  have 4: "map diffID_of ?eff ! j = rf_DiffIDs (cf_RootFS c0) ! j"
    if "j < length ls" "j \<noteq> i" "l_DiffID (ls ! j) = Inr (rf_DiffIDs (cf_RootFS c0) ! j)"
    for c0 j
    using 3[OF that(1,2)] that(3) by simp
  have 5: "fst (Layers X hp img) = Inr ?out" "length ?out = length ls"
    using lay by simp_all
  have 6: "?out ! i = L" if "unshadowed diffID_of ?eff i"
    using lookf[OF i that] i by simp
  have 7: "?out ! j = ls ! j" if "j < length ls" "j \<noteq> i" "unshadowed diffID_of ?eff j" for j
    using lookf[OF that(1,3)] that(1,2) by simp
  have 8: "fst (LayerByDiffID X hp img (diffID_of L)) = Inr L" if "unshadowed diffID_of ?eff i"
    using p lookf[OF i that] i by (simp add: LayerByDiffID_def)
  have 9: "fst (LayerByDigest X hp img (digest_of L)) = Inr L" if "unshadowed digest_of ?eff i"
    using p lookg[OF i that] i by (simp add: LayerByDigest_def)
  have len: "length (map diffID_of ?eff) = length ls" by simp
  show ?thesis
    using 1 len 2 3 4 5 6 7 8 9 by blast
qed

lemmas ex_defs = ex_extern_def ex_layer_def ex_heap_def ex_base_def ex_image_def
  populate_def Let_def ConfigFile_DeepCopy_def Manifest_DeepCopy_def deref_config_def
  deref_manifest_def assign_manifest_def assign_config_def partial_Descriptor_def

text \<open>
  The base has two layers and the override list one slot: the pass succeeds.
\<close>

theorem populate_no_length_check_counterexample:
  "im_Layers (base (ex_image ex_base [Some (ex_layer ''gL'' ''dL'')])) =
     Inr [ex_layer ''gA'' ''dA'', ex_layer ''gB'' ''dB''] \<and>
   length (overrides (ex_image ex_base [Some (ex_layer ''gL'' ''dL'')])) \<noteq>
     length [ex_layer ''gA'' ''dA'', ex_layer ''gB'' ''dB''] \<and>
   fst (populate ex_extern ex_heap (ex_image ex_base [Some (ex_layer ''gL'' ''dL'')])) = None"
  by (simp add: ex_defs)

theorem populate_no_length_check_witness:
  "\<exists>hp' img' m c.
     populate ex_extern ex_heap
       (ex_image ex_base [Some (ex_layer ''gL'' ''dB''), None, Some (ex_layer ''gN'' ''dN'')]) =
       (None, hp', img') \<and>
     computed img' \<and>
     deref_manifest hp' (manifest img') = Some m \<and>
     map d_Digest (m_Layers m) = [''gL'', ''gB'', ''gN''] \<and>
     deref_config hp' (configFile img') = Some c \<and>
     rf_DiffIDs (cf_RootFS c) = [''dB'', ''dB'', ''dN''] \<and>
     fst (Layers ex_extern ex_heap
            (ex_image ex_base [Some (ex_layer ''gL'' ''dB''), None, Some (ex_layer ''gN'' ''dN'')])) =
       Inr [ex_layer ''gB'' ''dB'', ex_layer ''gB'' ''dB'', ex_layer ''gN'' ''dN'']"
proof -
  let ?ovs = "[Some (ex_layer ''gL'' ''dB''), None, Some (ex_layer ''gN'' ''dN'')]"
  let ?ls = "[ex_layer ''gA'' ''dA'', ex_layer ''gB'' ''dB'']"
  let ?img = "ex_image ex_base ?ovs"
  have h1: "\<not> computed ?img" by (simp add: ex_image_def)
  have h2: "im_ConfigFile (base ?img) = Inr (Some 0)" by (simp add: ex_image_def ex_base_def)
  have h3: "deref_config ex_heap (Some 0) = Some (h_configs ex_heap ! 0)"
    by (simp add: deref_config_def ex_heap_def)
  have h4: "im_Manifest (base ?img) = Inr (Some 0)" by (simp add: ex_image_def ex_base_def)
  have h5: "deref_manifest ex_heap (Some 0) = Some (h_manifests ex_heap ! 0)"
    by (simp add: deref_manifest_def ex_heap_def)
  have h6: "im_Layers (base ?img) = Inr ?ls" by (simp add: ex_image_def ex_base_def)
  have h7: "length (overrides ?img) \<noteq> length ?ls" by (simp add: ex_image_def)
  have h8: "slots_in_range ?ls 0 (overrides ?img)" by (simp add: ex_image_def)
  have h9: "list_all layer_ok (effective ?ls 0 (overrides ?img))"
    by (simp add: ex_image_def layer_ok_def partial_Descriptor_def ex_layer_def)
  have h10: "\<forall>c. \<not> isl (json_Marshal_config ex_extern c)" by (simp add: ex_extern_def)
  have h11: "\<forall>b. \<not> isl (v1_SHA256 ex_extern b)" by (simp add: ex_extern_def)
  have e: "effective ?ls 0 (overrides ?img) =
             [ex_layer ''gL'' ''dB'', ex_layer ''gB'' ''dB'', ex_layer ''gN'' ''dN'']"
    by (simp add: ex_image_def)
  from populate_no_length_check[OF h1 h2 h3 h4 h5 h6 h7 h8 h9 h10 h11] obtain hp' img' m c where
    r: "populate ex_extern ex_heap ?img = (None, hp', img')" "computed img'"
      "deref_manifest hp' (manifest img') = Some m"
      "m_Layers m = map descriptor_of (effective ?ls 0 (overrides ?img))"
      "deref_config hp' (configFile img') = Some c"
      "rf_DiffIDs (cf_RootFS c) = map diffID_of (effective ?ls 0 (overrides ?img))"
      "byDiffID img' = index_layers diffID_of (effective ?ls 0 (overrides ?img)) Map.empty"
      "fst (Layers ex_extern ex_heap ?img) =
         Inr (map (\<lambda>l. the (byDiffID img' (diffID_of l))) (effective ?ls 0 (overrides ?img)))"
    by blast
  have m: "map d_Digest (m_Layers m) = [''gL'', ''gB'', ''gN'']"
    unfolding r(4) e by (simp add: descriptor_of_def partial_Descriptor_def ex_layer_def)
  have c: "rf_DiffIDs (cf_RootFS c) = [''dB'', ''dB'', ''dN'']"
    unfolding r(6) e by (simp add: diffID_of_def ex_layer_def)
  have l: "fst (Layers ex_extern ex_heap ?img) =
             Inr [ex_layer ''gB'' ''dB'', ex_layer ''gB'' ''dB'', ex_layer ''gN'' ''dN'']"
    unfolding r(8) r(7) e by (simp add: diffID_of_def ex_layer_def)
  show ?thesis
    by (rule exI[of _ hp'], rule exI[of _ img'], rule exI[of _ m], rule exI[of _ c])
      (simp add: r(1,2,3,5) m c l)
qed

theorem lookup_not_found_witness:
  "fst (LayerByDigest ex_extern ex_heap (ex_image ex_base [None, None]) ''zz'') = Inl ErrLayerNotFound \<and>
   fst (LayerByDiffID ex_extern ex_heap (ex_image ex_base [None, None]) ''zz'') = Inl ErrLayerNotFound \<and>
   fst (LayerByDigest ex_extern ex_heap (ex_image ex_base [None, None]) ''gA'') = Inr (ex_layer ''gA'' ''dA'') \<and>
   fst (LayerByDiffID ex_extern ex_heap (ex_image ex_base [None, None]) ''dA'') = Inr (ex_layer ''gA'' ''dA'')"
proof -
  let ?img = "ex_image ex_base [None, None]"
  obtain hp' img' where r: "populate ex_extern ex_heap ?img = (None, hp', img')"
    and img': "img' = snd (snd (populate ex_extern ex_heap ?img))"
    by (cases "populate ex_extern ex_heap ?img") (simp add: ex_defs)
  have a: "byDigest img' ''zz'' = None" "byDiffID img' ''zz'' = None"
    "byDigest img' ''gA'' = Some (ex_layer ''gA'' ''dA'')"
    "byDiffID img' ''dA'' = Some (ex_layer ''gA'' ''dA'')"
    unfolding img' by (simp_all add: ex_defs)
  from lookup_not_found[OF r, of "''zz''"] lookup_not_found[OF r, of "''gA''"]
    lookup_not_found[OF r, of "''dA''"] a
  show ?thesis by simp
qed

theorem populate_commits_atomically_witness:
  "fst (populate ex_extern ex_heap (ex_image ex_base_broken [None, None])) =
     Some (ErrExternal ''manifest unavailable'') \<and>
   snd (snd (populate ex_extern ex_heap (ex_image ex_base_broken [None, None]))) =
     ex_image ex_base_broken [None, None] \<and>
   fst (populate ex_extern ex_heap (ex_image ex_base [None, None])) = None \<and>
   computed (snd (snd (populate ex_extern ex_heap (ex_image ex_base [None, None]))))"
proof -
  let ?bad = "ex_image ex_base_broken [None, None]"
  let ?good = "ex_image ex_base [None, None]"
  obtain hp1 img1 where r1:
    "populate ex_extern ex_heap ?bad = (Some (ErrExternal ''manifest unavailable''), hp1, img1)"
    by (cases "populate ex_extern ex_heap ?bad") (simp add: ex_defs ex_base_broken_def)
  obtain r hp2 img2 where r2: "populate ex_extern ex_heap ?good = (r, hp2, img2)"
    and i2: "img2 = snd (snd (populate ex_extern ex_heap ?good))"
    by (cases "populate ex_extern ex_heap ?good") simp
  have ne: "img2 \<noteq> ?good"
  proof
    assume "img2 = ?good"
    then have "computed img2 = computed ?good" by simp
    then show False unfolding i2 by (simp add: ex_defs)
  qed
  from populate_commits_atomically[OF r1] populate_commits_atomically[OF r2] ne r1 r2
  show ?thesis by simp
qed

theorem layer_substitution_witness:
  "RootFS_DiffIDs ex_extern ex_heap
     (ex_image ex_base ((replicate 2 None)[0 := Some (ex_layer ''gL'' ''dL'')])) =
     Some [''dL'', ''dB''] \<and>
   map_option (\<lambda>c. rf_DiffIDs (cf_RootFS c) ! 1) (deref_config ex_heap (Some 0)) = Some ''dB'' \<and>
   fst (Layers ex_extern ex_heap
          (ex_image ex_base ((replicate 2 None)[0 := Some (ex_layer ''gL'' ''dL'')]))) =
     Inr [ex_layer ''gL'' ''dL'', ex_layer ''gB'' ''dB''] \<and>
   fst (LayerByDiffID ex_extern ex_heap
          (ex_image ex_base ((replicate 2 None)[0 := Some (ex_layer ''gL'' ''dL'')])) ''dL'') =
     Inr (ex_layer ''gL'' ''dL'') \<and>
   fst (LayerByDigest ex_extern ex_heap
          (ex_image ex_base ((replicate 2 None)[0 := Some (ex_layer ''gL'' ''dL'')])) ''gL'') =
     Inr (ex_layer ''gL'' ''dL'')"
proof -
  let ?L = "ex_layer ''gL'' ''dL''"
  let ?B = "ex_layer ''gB'' ''dB''"
  let ?ls = "[ex_layer ''gA'' ''dA'', ?B]"
  let ?img = "ex_image ex_base ((replicate (length ?ls) None)[0 := Some ?L])"
  have h1: "\<not> computed ?img" by (simp add: ex_image_def)
  have h2: "im_Layers (base ?img) = Inr ?ls" by (simp add: ex_image_def ex_base_def)
  have h3: "0 < length ?ls" by simp
  have h4: "overrides ?img = (replicate (length ?ls) None)[0 := Some ?L]"
    by (simp add: ex_image_def)
  obtain hp' img' where h5: "populate ex_extern ex_heap ?img = (None, hp', img')"
    by (cases "populate ex_extern ex_heap ?img") (simp add: ex_defs)
  have u: "unshadowed diffID_of (?ls[0 := ?L]) 0" "unshadowed diffID_of (?ls[0 := ?L]) 1"
    "unshadowed digest_of (?ls[0 := ?L]) 0"
    by (simp_all add: unshadowed_def diffID_of_def digest_of_def ex_layer_def)
  have b: "im_ConfigFile (base ?img) = Inr (Some 0)"
    "deref_config ex_heap (Some 0) = Some (h_configs ex_heap ! 0)"
    "l_DiffID (?ls ! 1) = Inr (rf_DiffIDs (cf_RootFS (h_configs ex_heap ! 0)) ! 1)"
    by (simp_all add: ex_image_def ex_base_def deref_config_def ex_heap_def ex_layer_def)
  from layer_substitution[OF h1 h2 h3 h4 h5] obtain ds out where
    r: "RootFS_DiffIDs ex_extern ex_heap ?img = Some ds" "length ds = length ?ls"
      "l_DiffID ?L = Inr (ds ! 0)"
      "\<forall>j < length ?ls. j \<noteq> 0 \<longrightarrow> l_DiffID (?ls ! j) = Inr (ds ! j)"
      "\<forall>cp0 c0 j. im_ConfigFile (base ?img) = Inr cp0 \<and> deref_config ex_heap cp0 = Some c0 \<and>
          j < length ?ls \<and> j \<noteq> 0 \<and> l_DiffID (?ls ! j) = Inr (rf_DiffIDs (cf_RootFS c0) ! j) \<longrightarrow>
          ds ! j = rf_DiffIDs (cf_RootFS c0) ! j"
      "fst (Layers ex_extern ex_heap ?img) = Inr out" "length out = length ?ls"
      "unshadowed diffID_of (?ls[0 := ?L]) 0 \<longrightarrow> out ! 0 = ?L"
      "\<forall>j < length ?ls. j \<noteq> 0 \<and> unshadowed diffID_of (?ls[0 := ?L]) j \<longrightarrow> out ! j = ?ls ! j"
      "unshadowed diffID_of (?ls[0 := ?L]) 0 \<longrightarrow>
         fst (LayerByDiffID ex_extern ex_heap ?img (diffID_of ?L)) = Inr ?L"
      "unshadowed digest_of (?ls[0 := ?L]) 0 \<longrightarrow>
         fst (LayerByDigest ex_extern ex_heap ?img (digest_of ?L)) = Inr ?L"
    by blast
  have d0: "ds ! 0 = ''dL''" using r(3) by (simp add: ex_layer_def)
  have d1: "ds ! 1 = ''dB''" using r(4)[rule_format, of 1] by (simp add: ex_layer_def)
  have d1': "ds ! 1 = rf_DiffIDs (cf_RootFS (h_configs ex_heap ! 0)) ! 1"
    using r(5)[rule_format, of "Some 0" "h_configs ex_heap ! 0" 1] b by simp
  have ds: "ds = [''dL'', ''dB'']"
    using r(2) d0 d1 by (cases ds; cases "tl ds") auto
  have o0: "out ! 0 = ?L" using r(8) u(1) by simp
  have o1: "out ! 1 = ?B" using r(9)[rule_format, of 1] u(2) by simp
  have out: "out = [?L, ?B]"
    using r(7) o0 o1 by (cases out; cases "tl out") auto
  have base1: "map_option (\<lambda>c. rf_DiffIDs (cf_RootFS c) ! 1) (deref_config ex_heap (Some 0)) =
                 Some ''dB''"
    using d1 d1' b(2) by simp
  have f: "fst (LayerByDiffID ex_extern ex_heap ?img ''dL'') = Inr ?L"
    using r(10) u(1) by (simp add: diffID_of_def ex_layer_def)
  have g: "fst (LayerByDigest ex_extern ex_heap ?img ''gL'') = Inr ?L"
    using r(11) u(3) by (simp add: digest_of_def ex_layer_def)
  show ?thesis
    using r(1) r(6) ds out base1 f g by (simp add: numeral_2_eq_2)
qed

text \<open>
  Where a condition is left out, the statement fails.

  \<^item> The override at index 0 has the diff-ID of the base layer at index 1, which is
    entered into the lookup map after it: \<^verbatim>\<open>Layers()\<close> and \<^verbatim>\<open>LayerByDiffID\<close> return that base
    layer in its place.
  \<^item> The override at index 0 is the blob of the base layer at index 1 under another media
    type: \<^verbatim>\<open>LayerByDigest\<close> returns the base layer.
  \<^item> The base has the same content at its first and third position, and the override is
    at the second: \<^verbatim>\<open>Layers()\<close> has the third base layer at the first position.
  \<^item> The config file of the base does not list the diff-ID of the second base layer: the
    second diff-ID of the image is that of the layer and not that of the base config.
\<close>

theorem layer_substitution_counterexample:
  "fst (Layers ex_extern ex_heap
          (ex_image ex_base ((replicate 2 None)[0 := Some (ex_layer ''gL'' ''dB'')]))) =
     Inr [ex_layer ''gB'' ''dB'', ex_layer ''gB'' ''dB''] \<and>
   [ex_layer ''gB'' ''dB'', ex_layer ''gB'' ''dB''] ! 0 \<noteq> ex_layer ''gL'' ''dB'' \<and>
   l_DiffID (ex_layer ''gL'' ''dB'') = Inr ''dB'' \<and>
   fst (LayerByDiffID ex_extern ex_heap
          (ex_image ex_base ((replicate 2 None)[0 := Some (ex_layer ''gL'' ''dB'')])) ''dB'') \<noteq>
     Inr (ex_layer ''gL'' ''dB'') \<and>
   l_Digest ex_layer_docker = Inr ''gB'' \<and>
   fst (LayerByDigest ex_extern ex_heap
          (ex_image ex_base ((replicate 2 None)[0 := Some ex_layer_docker])) ''gB'') =
     Inr (ex_layer ''gB'' ''dB'') \<and>
   ex_layer ''gB'' ''dB'' \<noteq> ex_layer_docker \<and>
   im_Layers ex_base_twice =
     Inr [ex_layer ''gB'' ''dB'', ex_layer ''gA'' ''dA'', ex_layer ''gZ'' ''dB''] \<and>
   fst (Layers ex_extern ex_heap
          (ex_image ex_base_twice ((replicate 3 None)[1 := Some (ex_layer ''gL'' ''dL'')]))) =
     Inr [ex_layer ''gZ'' ''dB'', ex_layer ''gL'' ''dL'', ex_layer ''gZ'' ''dB''] \<and>
   ex_layer ''gZ'' ''dB'' \<noteq> ex_layer ''gB'' ''dB'' \<and>
   RootFS_DiffIDs ex_extern ex_heap_stale (ex_image ex_base [None, None]) = Some [''dA'', ''dB''] \<and>
   RootFS_DiffIDs ex_extern ex_heap_stale
     (ex_image ex_base ((replicate 2 None)[0 := Some (ex_layer ''gL'' ''dL'')])) =
     Some [''dL'', ''dB''] \<and>
   map_option (\<lambda>c. rf_DiffIDs (cf_RootFS c)) (deref_config ex_heap_stale (Some 0)) =
     Some [''dA'', ''dX'']"
  by (simp add: ex_defs Layers_def LayerByDiffID_def LayerByDigest_def RootFS_DiffIDs_def
        ConfigFile_def ex_layer_docker_def ex_base_twice_def ex_heap_stale_def
        numeral_2_eq_2 numeral_3_eq_3)

theorem base_never_mutated_witness:
  "deref_manifest ex_heap (Some 0) \<noteq> None \<and>
   deref_manifest
     (fst (calls ex_extern [CallLayers, CallDigest, CallConfigFile]
             (ex_heap, ex_image ex_base [Some (ex_layer ''gL'' ''dL''), None])))
     (Some 0) = deref_manifest ex_heap (Some 0) \<and>
   deref_config ex_heap (Some 0) \<noteq> None \<and>
   deref_config
     (fst (calls ex_extern [CallLayers, CallDigest, CallConfigFile]
             (ex_heap, ex_image ex_base [Some (ex_layer ''gL'' ''dL''), None])))
     (Some 0) = deref_config ex_heap (Some 0)"
proof -
  let ?s = "calls ex_extern [CallLayers, CallDigest, CallConfigFile]
              (ex_heap, ex_image ex_base [Some (ex_layer ''gL'' ''dL''), None])"
  have c: "?s = (fst ?s, snd ?s)" by simp
  have m: "deref_manifest ex_heap (Some 0) = Some (h_manifests ex_heap ! 0)"
    by (simp add: deref_manifest_def ex_heap_def)
  have f: "deref_config ex_heap (Some 0) = Some (h_configs ex_heap ! 0)"
    by (simp add: deref_config_def ex_heap_def)
  from base_never_mutated[OF c] m f show ?thesis by simp
qed

lemma same_store_refl: "same_store w w"
  by (simp add: same_store_def)

lemma same_store_trans: "same_store a b \<Longrightarrow> same_store b c \<Longrightarrow> same_store a c"
  by (simp add: same_store_def)

section \<open>Package sif: what the primitives and the walk do\<close>

lemma fault_same: "fault w = (r, w') \<Longrightarrow> same_store w w'"
  by (auto simp: fault_def same_store_def split: list.splits)

lemma GetDescriptors_same: "GetDescriptors t w = (r, w') \<Longrightarrow> same_store w w'"
  by (auto simp: GetDescriptors_def split: prod.splits option.splits dest: fault_same)

lemma GetDescriptors_Inr:
  "GetDescriptors t w = (Inr ds, w') \<Longrightarrow> ds = descriptors_of t (fi w)"
  by (auto simp: GetDescriptors_def same_store_def split: prod.splits option.splits dest!: fault_same)

lemma GetDescriptor_same: "GetDescriptor t w = (r, w') \<Longrightarrow> same_store w w'"
  by (auto simp: GetDescriptor_def split: prod.splits option.splits list.splits dest: fault_same)

lemma GetDescriptor_Inr:
  "GetDescriptor t w = (Inr x, w') \<Longrightarrow> descriptors_of t (fi w) = [x]"
  by (auto simp: GetDescriptor_def same_store_def split: prod.splits option.splits list.splits
        dest!: fault_same)

lemma rc_Close_same: "rc_Close w = (r, w') \<Longrightarrow> same_store w w'"
  by (simp add: rc_Close_def fault_same)

lemma os_Open_same: "os_Open n w = (r, w') \<Longrightarrow> same_store w w'"
  by (cases "fault w") (auto simp: os_Open_def split: option.splits dest: fault_same)

lemma os_Open_Inr:
  "os_Open n w = (Inr c, w') \<Longrightarrow> \<exists>files. cacheDir w = Some files \<and> files n = Some c"
  by (cases "fault w"; cases "cacheDir w")
     (auto simp: os_Open_def same_store_def split: option.splits dest!: fault_same)

lemma ImageIndexFromFileImage_same: "ImageIndexFromFileImage w = (r, w') \<Longrightarrow> same_store w w'"
  by (auto simp: ImageIndexFromFileImage_def split: prod.splits sum.splits dest: GetDescriptor_same)

lemma ImageIndexFromFileImage_Inr:
  "ImageIndexFromFileImage w = (Inr b, w') \<Longrightarrow> root_indexes (fi w) = [b]"
  by (auto simp: ImageIndexFromFileImage_def root_indexes_def split: prod.splits sum.splits
        dest!: GetDescriptor_Inr)

lemma sifBlobs_same: "sifBlobs w = (r, w') \<Longrightarrow> same_store w w'"
  by (auto simp: sifBlobs_def split: prod.splits sum.splits dest: GetDescriptors_same)

lemma sifBlobs_loop_Inr:
  "sifBlobs_loop ds acc = Inr bs \<Longrightarrow>
   \<exists>ys. bs = acc @ ys \<and> map (\<lambda>(i, d). o_OCIBlobDigest d) ds = map Inr ys"
proof (induction ds arbitrary: acc)
  case Nil
  then show ?case by simp
next
  case (Cons a ds)
  obtain i d where a: "a = (i, d)" by (cases a)
  from Cons.prems obtain dg where dg: "o_OCIBlobDigest d = Inr dg"
    and rec: "sifBlobs_loop ds (acc @ [dg]) = Inr bs"
    by (auto simp: a split: sum.splits)
  from Cons.IH[OF rec] obtain ys where "bs = (acc @ [dg]) @ ys"
    "map (\<lambda>(i, d). o_OCIBlobDigest d) ds = map Inr ys" by blast
  then show ?case using dg by (intro exI[of _ "dg # ys"]) (simp add: a)
qed

lemma sifBlobs_Inr:
  "sifBlobs w = (Inr bs, w') \<Longrightarrow>
   map (\<lambda>(i, d). o_OCIBlobDigest d) (descriptors_of DataOCIBlob (fi w)) = map Inr bs"
  by (auto simp: sifBlobs_def split: prod.splits sum.splits
        dest!: GetDescriptors_Inr sifBlobs_loop_Inr)

lemma staged_append: "staged skip (xs @ ys) = staged skip xs @ staged skip ys"
  by (simp add: staged_def)

lemma stage_files_append: "stage_files (xs @ ys) f = stage_files ys (stage_files xs f)"
  by (simp add: stage_files_def)

lemma stage_files_nil: "map_option (stage_files []) x = x"
  by (cases x) (simp_all add: stage_files_def)

lemma stage_files_map_append:
  "map_option (stage_files (xs @ ys)) x = map_option (stage_files ys) (map_option (stage_files xs) x)"
  by (cases x) (simp_all add: stage_files_append)

lemma stage_files_single:
  "map_option (stage_files [(d, rc)]) x = map_option (\<lambda>f. f(d \<mapsto> rc)) x"
  by (cases x) (simp_all add: stage_files_def)

lemma walk_ok_nil: "walk_ok skip [] a a w w"
  by (simp add: walk_ok_def staged_def stage_files_nil)

lemma walk_ok_append:
  "walk_ok skip rs1 a b w w1 \<Longrightarrow> walk_ok skip rs2 b c w1 w2 \<Longrightarrow>
   walk_ok skip (rs1 @ rs2) a c w w2"
  by (auto simp: walk_ok_def staged_append stage_files_map_append)

lemma walk_ok_shift:
  "walk_ok skip rs ([], []) (cc, cs) w w' \<Longrightarrow> walk_ok skip rs (c, s) (c @ cc, s @ cs) w w'"
  by (simp add: walk_ok_def)

lemma walk_ok_skip:
  "d \<in> set skip \<Longrightarrow> walk_ok skip [(d, x)] (c, s) (c, s @ [d]) w w"
  by (simp add: walk_ok_def staged_def stage_files_nil)

lemma os_Create_None:
  "os_Create n w = (None, w') \<Longrightarrow>
   fi w' = fi w \<and> trace w' = trace w \<and>
   (\<exists>files. cacheDir w = Some files \<and> cacheDir w' = Some (files(n \<mapsto> [])))"
  by (cases "fault w"; cases "cacheDir w")
     (auto simp: os_Create_def same_store_def split: option.splits dest!: fault_same)

lemma os_Create_Some:
  "os_Create n w = (Some e, w') \<Longrightarrow> same_store w w'"
  by (cases "fault w"; cases "cacheDir w")
     (auto simp: os_Create_def split: option.splits dest!: fault_same)

lemma io_Copy_None:
  "io_Copy n c w = (None, w') \<Longrightarrow>
   fi w' = fi w \<and> trace w' = trace w @ [EvStage n c] \<and>
   (\<exists>files. cacheDir w = Some files \<and> cacheDir w' = Some (files(n \<mapsto> c)))"
  by (cases "fault w"; cases "cacheDir w")
     (auto simp: io_Copy_def same_store_def split: option.splits dest!: fault_same)

lemma io_Copy_Some:
  "io_Copy n c w = (Some e, w') \<Longrightarrow> same_store w w'"
  by (cases "fault w"; cases "cacheDir w")
     (auto simp: io_Copy_def split: option.splits dest!: fault_same)

lemma writeCacheBlob_None:
  assumes "writeCacheBlob rc d w = (None, w')"
  shows "fi w' = fi w \<and> trace w' = trace w @ [EvStage d rc] \<and>
         cacheDir w' = map_option (\<lambda>f. f(d \<mapsto> rc)) (cacheDir w)"
proof -
  from assms obtain w1 w2 where 1: "os_Create d w = (None, w1)"
    and 2: "io_Copy d rc w1 = (None, w2)" and 3: "rc_Close w2 = (None, w')"
    by (auto simp: writeCacheBlob_def split: prod.splits option.splits)
  from os_Create_None[OF 1] io_Copy_None[OF 2] rc_Close_same[OF 3]
  show ?thesis by (auto simp: same_store_def)
qed

lemma walk_ok_stage:
  assumes "d \<notin> set skip" and "writeCacheBlob rc d w = (None, w')"
  shows "walk_ok skip [(d, Inr rc)] (c, s) (c @ [d], s) w w'"
  using writeCacheBlob_None[OF assms(2)] assms(1)
  by (simp add: walk_ok_def staged_def stage_files_single)

lemma only_stages_refl: "only_stages w w"
  by (simp add: only_stages_def)

lemma only_stages_trans: "only_stages a b \<Longrightarrow> only_stages b c \<Longrightarrow> only_stages a c"
  by (auto simp: only_stages_def)

lemma same_store_only_stages: "same_store w w' \<Longrightarrow> only_stages w w'"
  by (simp add: same_store_def only_stages_def)

lemma writeCacheBlob_only_stages: "writeCacheBlob rc d w = (r, w') \<Longrightarrow> only_stages w w'"
proof -
  assume a: "writeCacheBlob rc d w = (r, w')"
  obtain r1 w1 where 1: "os_Create d w = (r1, w1)" by (cases "os_Create d w")
  show ?thesis
  proof (cases r1)
    case (Some e)
    with a 1 show ?thesis
      by (auto simp: writeCacheBlob_def dest!: os_Create_Some same_store_only_stages)
  next
    case None
    note c = os_Create_None[OF 1[unfolded None]]
    obtain r2 w2 where 2: "io_Copy d rc w1 = (r2, w2)" by (cases "io_Copy d rc w1")
    show ?thesis
    proof (cases r2)
      case (Some e)
      with a 1 2 None c io_Copy_Some[of d rc w1 e w2] show ?thesis
        by (auto simp: writeCacheBlob_def only_stages_def same_store_def)
    next
      case None2: None
      with a 1 2 None have 3: "rc_Close w2 = (r, w')" by (simp add: writeCacheBlob_def)
      from c io_Copy_None[OF 2[unfolded None2]] rc_Close_same[OF 3]
      show ?thesis by (auto simp: only_stages_def same_store_def)
    qed
  qed
qed

lemma layers_walk:
  "cacheImageBlobs_layers ls skip a w = (Inr b, w') \<Longrightarrow>
   \<exists>rs. layers_refs ls = Inr rs \<and> walk_ok skip rs a b w w'"
proof (induction ls arbitrary: a w)
  case Nil
  then show ?case by (auto simp: walk_ok_nil)
next
  case (Cons l ls)
  obtain c s where a: "a = (c, s)" by (cases a)
  from Cons.prems obtain ld where ld: "l_Digest l = Inr ld"
    by (auto simp: a split: sum.splits)
  show ?case
  proof (cases "ld \<in> set skip")
    case True
    with Cons.prems ld have "cacheImageBlobs_layers ls skip (c, s @ [ld]) w = (Inr b, w')"
      by (simp add: a)
    from Cons.IH[OF this] obtain rs where rs: "layers_refs ls = Inr rs"
      and wk: "walk_ok skip rs (c, s @ [ld]) b w w'" by blast
    from walk_ok_append[OF walk_ok_skip[OF True] wk]
    have "walk_ok skip ((ld, l_Compressed l) # rs) a b w w'" by (simp add: a)
    with rs ld show ?thesis by simp
  next
    case False
    with Cons.prems ld obtain rc w1 where rc: "l_Compressed l = Inr rc"
      and wr: "writeCacheBlob rc ld w = (None, w1)"
      and rest: "cacheImageBlobs_layers ls skip (c @ [ld], s) w1 = (Inr b, w')"
      by (auto simp: a split: sum.splits prod.splits option.splits)
    from Cons.IH[OF rest] obtain rs where rs: "layers_refs ls = Inr rs"
      and wk: "walk_ok skip rs (c @ [ld], s) b w1 w'" by blast
    from walk_ok_append[OF walk_ok_stage[OF False wr] wk]
    have "walk_ok skip ((ld, l_Compressed l) # rs) a b w w'" by (simp add: a rc)
    with rs ld show ?thesis by simp
  qed
qed

lemma layers_only_stages:
  "cacheImageBlobs_layers ls skip a w = (r, w') \<Longrightarrow> only_stages w w'"
proof (induction ls arbitrary: a w)
  case Nil
  then show ?case by (simp add: only_stages_refl)
next
  case (Cons l ls)
  obtain c s where a: "a = (c, s)" by (cases a)
  show ?case
    using Cons.prems unfolding a
    by (auto split: sum.splits if_splits prod.splits option.splits
          dest!: Cons.IH writeCacheBlob_only_stages
          intro: only_stages_refl only_stages_trans)
qed

lemma image_walk:
  assumes "cacheImageBlobs im skip w = (Inr b, w')"
  shows "\<exists>rs. image_refs im = Inr rs \<and> walk_ok skip rs ([], []) b w w'"
proof -
  from assms obtain layers c s w1 mf where l: "i_Layers im = Inr layers"
    and lw: "cacheImageBlobs_layers layers skip ([], []) w = (Inr (c, s), w1)"
    and mf: "i_Manifest im = Inr mf"
    by (auto simp: cacheImageBlobs_def split: sum.splits prod.splits)
  from layers_walk[OF lw] obtain rs where rs: "layers_refs layers = Inr rs"
    and wk: "walk_ok skip rs ([], []) (c, s) w w1" by blast
  let ?d = "d_Digest (m_Config mf)"
  have "walk_ok skip [(?d, i_RawConfigFile im)] (c, s) b w1 w'"
  proof (cases "?d \<in> set skip")
    case True
    with assms l lw mf have "b = (c, s @ [?d])" "w' = w1"
      by (simp_all add: cacheImageBlobs_def)
    with walk_ok_skip[OF True] show ?thesis by simp
  next
    case False
    with assms l lw mf obtain cf where cf: "i_RawConfigFile im = Inr cf"
      and wr: "writeCacheBlob cf ?d w1 = (None, w')" and b: "b = (c @ [?d], s)"
      by (auto simp: cacheImageBlobs_def split: sum.splits prod.splits option.splits)
    from walk_ok_stage[OF False wr] show ?thesis by (simp add: cf b)
  qed
  from walk_ok_append[OF wk this] l rs mf show ?thesis
    by (simp add: image_refs_def)
qed

lemma image_only_stages:
  "cacheImageBlobs im skip w = (r, w') \<Longrightarrow> only_stages w w'"
  by (auto simp: cacheImageBlobs_def split: sum.splits prod.splits if_splits option.splits
        dest!: layers_only_stages writeCacheBlob_only_stages
        intro: only_stages_refl only_stages_trans)

lemma phase_stage_events: "list_all (\<lambda>ev. phase ev = 0) (map (\<lambda>(d, b). EvStage d b) xs)"
  by (induction xs) auto

lemma walk_ok_only_stages: "walk_ok skip rs a b w w' \<Longrightarrow> only_stages w w'"
  by (auto simp: walk_ok_def only_stages_def phase_stage_events)

lemma walk_res_fail: "only_stages w w' \<Longrightarrow> walk_res skip refs a w (Inl e) w'"
  by (simp add: walk_res_def)

lemma walk_res_seq:
  assumes "walk_ok skip rs1 a a1 w w1" and "walk_res skip refs2 a1 w1 r w'"
    and "\<And>rs2. refs2 = Inr rs2 \<Longrightarrow> refs = Inr (rs1 @ rs2)"
  shows "walk_res skip refs a w r w'"
proof -
  have "only_stages w w'"
    using walk_ok_only_stages[OF assms(1)] assms(2)
    by (auto simp: walk_res_def intro: only_stages_trans)
  moreover have "\<exists>rs. refs = Inr rs \<and> walk_ok skip rs a b w w'" if "r = Inr b" for b
  proof -
    from assms(2) that obtain rs2 where 2: "refs2 = Inr rs2" "walk_ok skip rs2 a1 b w1 w'"
      by (auto simp: walk_res_def)
    from walk_ok_append[OF assms(1) 2(2)] assms(3)[OF 2(1)] show ?thesis by blast
  qed
  ultimately show ?thesis by (simp add: walk_res_def)
qed

lemma walk_res_layers:
  "cacheImageBlobs_layers ls skip a w = (r, w') \<Longrightarrow> walk_res skip (layers_refs ls) a w r w'"
  by (auto simp: walk_res_def dest: layers_only_stages layers_walk)

lemma walk_res_image:
  "cacheImageBlobs im skip w = (r, w') \<Longrightarrow> walk_res skip (image_refs im) ([], []) w r w'"
  by (auto simp: walk_res_def dest: image_only_stages image_walk)

lemma own_entry:
  assumes child: "walk_ok skip crs ([], []) (cc, cs) w w1"
    and run: "(if d \<in> set skip then K (cached @ cc, skipped @ cs @ [d]) w1
               else case content of
                      Inl e \<Rightarrow> (Inl e, w1)
                    | Inr rm \<Rightarrow>
                        (case writeCacheBlob rm d w1 of
                           (Some e, w2) \<Rightarrow> (Inl e, w2)
                         | (None, w2) \<Rightarrow> K (cached @ cc @ [d], skipped @ cs) w2)) = (r, w')"
    and ih1: "d \<in> set skip \<Longrightarrow>
              walk_res skip rest (cached @ cc, skipped @ cs @ [d]) w1
                (fst (K (cached @ cc, skipped @ cs @ [d]) w1))
                (snd (K (cached @ cc, skipped @ cs @ [d]) w1))"
    and ih2: "\<And>rm w2. d \<notin> set skip \<Longrightarrow> content = Inr rm \<Longrightarrow>
              writeCacheBlob rm d w1 = (None, w2) \<Longrightarrow>
              walk_res skip rest (cached @ cc @ [d], skipped @ cs) w2
                (fst (K (cached @ cc @ [d], skipped @ cs) w2))
                (snd (K (cached @ cc @ [d], skipped @ cs) w2))"
    and refs: "\<And>rs2. rest = Inr rs2 \<Longrightarrow> refs = Inr (crs @ [(d, content)] @ rs2)"
  shows "walk_res skip refs (cached, skipped) w r w'"
proof -
  note sh = walk_ok_shift[OF child, of cached skipped]
  note os1 = walk_ok_only_stages[OF child]
  show ?thesis
  proof (cases "d \<in> set skip")
    case True
    with run have k: "K (cached @ cc, skipped @ cs @ [d]) w1 = (r, w')" by simp
    have "walk_ok skip (crs @ [(d, content)]) (cached, skipped)
            (cached @ cc, skipped @ cs @ [d]) w w1"
      using walk_ok_append[OF sh walk_ok_skip[OF True]] by simp
    from walk_res_seq[OF this ih1[OF True, unfolded k fst_conv snd_conv]] refs
    show ?thesis by simp
  next
    case False
    show ?thesis
    proof (cases content)
      case (Inl e)
      with run False have "r = Inl e" "w' = w1" by auto
      with os1 show ?thesis by (simp add: walk_res_fail)
    next
      case (Inr rm)
      obtain x w2 where wr: "writeCacheBlob rm d w1 = (x, w2)"
        by (cases "writeCacheBlob rm d w1")
      have os2: "only_stages w w2"
        using os1 writeCacheBlob_only_stages[OF wr] by (rule only_stages_trans)
      show ?thesis
      proof (cases x)
        case (Some e)
        with run False Inr wr have "r = Inl e" "w' = w2" by auto
        with os2 show ?thesis by (simp add: walk_res_fail)
      next
        case None
        with run False Inr wr have k: "K (cached @ cc @ [d], skipped @ cs) w2 = (r, w')"
          by simp
        have "walk_ok skip (crs @ [(d, content)]) (cached, skipped)
                (cached @ cc @ [d], skipped @ cs) w w2"
          using walk_ok_append[OF sh walk_ok_stage[OF False wr[unfolded None]]]
          by (simp add: Inr)
        from walk_res_seq[OF this ih2[OF False Inr wr[unfolded None], unfolded k fst_conv snd_conv]]
          refs
        show ?thesis by simp
      qed
    qed
  qed
qed

lemma index_walk_res:
  "walk_res skip (index_refs ii) ([], []) w
     (fst (cacheIndexBlobs ii skip w)) (snd (cacheIndexBlobs ii skip w))"
  "walk_res skip (index_refs_list ii descs) acc w
     (fst (cacheIndexBlobs_loop ii descs skip acc w))
     (snd (cacheIndexBlobs_loop ii descs skip acc w))"
proof (induction ii skip w and ii descs skip acc w
        rule: cacheIndexBlobs_cacheIndexBlobs_loop.induct)
  case (1 ii skip w)
  show ?case
  proof (cases "ii_IndexManifest ii")
    case (Inl e)
    then show ?thesis by (simp add: walk_res_fail only_stages_refl)
  next
    case (Inr index)
    with "1.IH"[OF Inr] show ?thesis by simp
  qed
next
  case (2 ii skip acc w)
  show ?case by (simp add: walk_res_def only_stages_refl walk_ok_nil)
next
  case (3 ii desc descs skip cached skipped w)
  let ?d = "d_Digest desc"
  let ?L = "cacheIndexBlobs_loop ii (desc # descs) skip (cached, skipped) w"
  let ?K = "cacheIndexBlobs_loop ii descs skip"
  let ?rest = "index_refs_list ii descs"
  consider (index) "d_MediaType desc = DockerManifestList \<or> d_MediaType desc = OCIImageIndex"
    | (image) "\<not> (d_MediaType desc = DockerManifestList \<or> d_MediaType desc = OCIImageIndex)"
        "d_MediaType desc = DockerManifestSchema2 \<or> d_MediaType desc = OCIManifestSchema1"
    | (other) "\<not> (d_MediaType desc = DockerManifestList \<or> d_MediaType desc = OCIImageIndex)"
        "\<not> (d_MediaType desc = DockerManifestSchema2 \<or> d_MediaType desc = OCIManifestSchema1)"
    by blast
  then show ?case
  proof cases
    case index
    show ?thesis
    proof (cases "ii_ImageIndex ii ?d")
      case (Inl e)
      with index show ?thesis by (simp add: walk_res_fail only_stages_refl)
    next
      case (Inr child)
      obtain x w1 where cr: "cacheIndexBlobs child skip w = (x, w1)"
        by (cases "cacheIndexBlobs child skip w")
      from "3.IH"(1)[OF index Inr] cr
      have ch: "walk_res skip (index_refs child) ([], []) w x w1" by simp
      show ?thesis
      proof (cases x)
        case (Inl e)
        with index Inr cr ch show ?thesis by (simp add: walk_res_def)
      next
        case xr: (Inr ccs)
        obtain cc cs where ccs: "ccs = (cc, cs)" by (cases ccs)
        from ch xr ccs obtain crs where crs: "index_refs child = Inr crs"
          and wk: "walk_ok skip crs ([], []) (cc, cs) w w1"
          by (auto simp: walk_res_def)
        note cr' = cr[unfolded xr ccs]
        have run: "(if ?d \<in> set skip then ?K (cached @ cc, skipped @ cs @ [?d]) w1
               else case ii_RawManifest child of
                      Inl e \<Rightarrow> (Inl e, w1)
                    | Inr rm \<Rightarrow>
                        (case writeCacheBlob rm ?d w1 of
                           (Some e, w2) \<Rightarrow> (Inl e, w2)
                         | (None, w2) \<Rightarrow> ?K (cached @ cc @ [?d], skipped @ cs) w2))
              = (fst ?L, snd ?L)"
          using index Inr cr' by simp
        show ?thesis
        proof (rule own_entry[OF wk run])
          assume "?d \<in> set skip"
          from "3.IH"(2)[OF index Inr cr'[symmetric] refl refl this]
          show "walk_res skip ?rest (cached @ cc, skipped @ cs @ [?d]) w1
                  (fst (?K (cached @ cc, skipped @ cs @ [?d]) w1))
                  (snd (?K (cached @ cc, skipped @ cs @ [?d]) w1))" .
        next
          fix rm w2
          assume a: "?d \<notin> set skip" "ii_RawManifest child = Inr rm"
            "writeCacheBlob rm ?d w1 = (None, w2)"
          from "3.IH"(3)[OF index Inr cr'[symmetric] refl refl a(1) a(2) a(3)[symmetric] refl]
          show "walk_res skip ?rest (cached @ cc @ [?d], skipped @ cs) w2
                  (fst (?K (cached @ cc @ [?d], skipped @ cs) w2))
                  (snd (?K (cached @ cc @ [?d], skipped @ cs) w2))" .
        next
          fix rs2 assume "?rest = Inr rs2"
          then show "index_refs_list ii (desc # descs) =
                       Inr (crs @ [(?d, ii_RawManifest child)] @ rs2)"
            using index Inr crs by simp
        qed
      qed
    qed
  next
    case image
    show ?thesis
    proof (cases "ii_Image ii ?d")
      case (Inl e)
      with image show ?thesis by (simp add: walk_res_fail only_stages_refl)
    next
      case (Inr child)
      obtain x w1 where cr: "cacheImageBlobs child skip w = (x, w1)"
        by (cases "cacheImageBlobs child skip w")
      from walk_res_image[OF cr]
      have ch: "walk_res skip (image_refs child) ([], []) w x w1" .
      show ?thesis
      proof (cases x)
        case (Inl e)
        with image Inr cr ch show ?thesis by (simp add: walk_res_def)
      next
        case xr: (Inr ccs)
        obtain cc cs where ccs: "ccs = (cc, cs)" by (cases ccs)
        from ch xr ccs obtain crs where crs: "image_refs child = Inr crs"
          and wk: "walk_ok skip crs ([], []) (cc, cs) w w1"
          by (auto simp: walk_res_def)
        note cr' = cr[unfolded xr ccs]
        have run: "(if ?d \<in> set skip then ?K (cached @ cc, skipped @ cs @ [?d]) w1
               else case i_RawManifest child of
                      Inl e \<Rightarrow> (Inl e, w1)
                    | Inr rm \<Rightarrow>
                        (case writeCacheBlob rm ?d w1 of
                           (Some e, w2) \<Rightarrow> (Inl e, w2)
                         | (None, w2) \<Rightarrow> ?K (cached @ cc @ [?d], skipped @ cs) w2))
              = (fst ?L, snd ?L)"
          using image Inr cr' by simp
        show ?thesis
        proof (rule own_entry[OF wk run])
          assume "?d \<in> set skip"
          from "3.IH"(4)[OF image Inr cr'[symmetric] refl refl this]
          show "walk_res skip ?rest (cached @ cc, skipped @ cs @ [?d]) w1
                  (fst (?K (cached @ cc, skipped @ cs @ [?d]) w1))
                  (snd (?K (cached @ cc, skipped @ cs @ [?d]) w1))" .
        next
          fix rm w2
          assume a: "?d \<notin> set skip" "i_RawManifest child = Inr rm"
            "writeCacheBlob rm ?d w1 = (None, w2)"
          from "3.IH"(5)[OF image Inr cr'[symmetric] refl refl a(1) a(2) a(3)[symmetric] refl]
          show "walk_res skip ?rest (cached @ cc @ [?d], skipped @ cs) w2
                  (fst (?K (cached @ cc @ [?d], skipped @ cs) w2))
                  (snd (?K (cached @ cc @ [?d], skipped @ cs) w2))" .
        next
          fix rs2 assume "?rest = Inr rs2"
          then show "index_refs_list ii (desc # descs) =
                       Inr (crs @ [(?d, i_RawManifest child)] @ rs2)"
            using image Inr crs by simp
        qed
      qed
    qed
  next
    case other
    have run: "(if ?d \<in> set skip then ?K (cached @ [], skipped @ [] @ [?d]) w
               else case blobFromIndex ii ?d of
                      Inl e \<Rightarrow> (Inl e, w)
                    | Inr rm \<Rightarrow>
                        (case writeCacheBlob rm ?d w of
                           (Some e, w2) \<Rightarrow> (Inl e, w2)
                         | (None, w2) \<Rightarrow> ?K (cached @ [] @ [?d], skipped @ []) w2))
              = (fst ?L, snd ?L)"
      using other by (simp split: sum.splits prod.splits option.splits)
    show ?thesis
    proof (rule own_entry[OF walk_ok_nil run])
      assume "?d \<in> set skip"
      from "3.IH"(6)[OF other this]
      show "walk_res skip ?rest (cached @ [], skipped @ [] @ [?d]) w
              (fst (?K (cached @ [], skipped @ [] @ [?d]) w))
              (snd (?K (cached @ [], skipped @ [] @ [?d]) w))" by simp
    next
      fix rm w2
      assume a: "?d \<notin> set skip" "blobFromIndex ii ?d = Inr rm"
        "writeCacheBlob rm ?d w = (None, w2)"
      from "3.IH"(7)[OF other a(1) a(2) a(3)[symmetric] refl]
      show "walk_res skip ?rest (cached @ [] @ [?d], skipped @ []) w2
              (fst (?K (cached @ [] @ [?d], skipped @ []) w2))
              (snd (?K (cached @ [] @ [?d], skipped @ []) w2))" by simp
    next
      fix rs2 assume "?rest = Inr rs2"
      then show "index_refs_list ii (desc # descs) =
                   Inr ([] @ [(?d, blobFromIndex ii ?d)] @ rs2)"
        using other by simp
    qed
  qed
qed

lemma cacheIndexBlobs_walk:
  "cacheIndexBlobs ii skip w = (Inr b, w') \<Longrightarrow>
   \<exists>rs. index_refs ii = Inr rs \<and> walk_ok skip rs ([], []) b w w'"
  using index_walk_res(1)[of skip ii w] by (simp add: walk_res_def)

lemma cacheIndexBlobs_only_stages:
  "cacheIndexBlobs ii skip w = (r, w') \<Longrightarrow> only_stages w w'"
  using index_walk_res(1)[of skip ii w] by (simp add: walk_res_def)

section \<open>Package sif: the objects of a file image\<close>

lemma slot_of_simps:
  "slot_of t (i, None) = None"
  "slot_of t (i, Some d) = (if o_DataType d = t then Some (i, d) else None)"
  by (simp_all add: slot_of_def)

lemma descriptors_of_alt: "descriptors_of t tab = List.map_filter (slot_of t) (enumerate 0 tab)"
  by (simp add: descriptors_of_def slot_of_def)

lemma set_map_filter': "set (List.map_filter g xs) = {y. \<exists>x \<in> set xs. g x = Some y}"
  by (induction xs) (auto simp: map_filter_simps split: option.splits)

lemma slot_of_Some:
  "slot_of t (j, slot) = Some (i, d) \<longleftrightarrow> j = i \<and> slot = Some d \<and> o_DataType d = t"
  by (auto simp: slot_of_def split: option.splits if_splits)

lemma in_map_filter_enumerate:
  "(i, d) \<in> set (List.map_filter (slot_of t) (enumerate n tab)) \<longleftrightarrow>
   n \<le> i \<and> i < n + length tab \<and> tab ! (i - n) = Some d \<and> o_DataType d = t"
proof
  assume "(i, d) \<in> set (List.map_filter (slot_of t) (enumerate n tab))"
  then show "n \<le> i \<and> i < n + length tab \<and> tab ! (i - n) = Some d \<and> o_DataType d = t"
    by (auto simp: set_map_filter' in_set_enumerate_eq slot_of_Some)
next
  assume a: "n \<le> i \<and> i < n + length tab \<and> tab ! (i - n) = Some d \<and> o_DataType d = t"
  then have "(i, Some d) \<in> set (enumerate n tab)"
    by (simp add: in_set_enumerate_eq add.commute)
  moreover have "slot_of t (i, Some d) = Some (i, d)" using a by (simp add: slot_of_Some)
  ultimately show "(i, d) \<in> set (List.map_filter (slot_of t) (enumerate n tab))"
    unfolding set_map_filter' by blast
qed

lemma in_descriptors_of:
  "(i, d) \<in> set (descriptors_of t tab) \<longleftrightarrow> i < length tab \<and> tab ! i = Some d \<and> o_DataType d = t"
  by (simp add: descriptors_of_alt in_map_filter_enumerate)

lemma distinct_map_filter_enumerate:
  "distinct (map fst (List.map_filter (slot_of t) (enumerate n tab)))"
proof (induction tab arbitrary: n)
  case Nil
  then show ?case by (simp add: map_filter_simps)
next
  case (Cons a tab)
  have "n \<notin> fst ` set (List.map_filter (slot_of t) (enumerate (Suc n) tab))"
    by (auto simp: in_map_filter_enumerate)
  then show ?case
    by (cases a) (auto simp: map_filter_simps slot_of_simps Cons.IH split: if_splits)
qed

lemma distinct_descriptors_of: "distinct (map fst (descriptors_of t tab))"
  by (simp add: descriptors_of_alt distinct_map_filter_enumerate)

lemma objects_map_filter:
  "map snd (List.map_filter (slot_of t) (enumerate n tab)) =
   List.map_filter (\<lambda>slot. case slot of None \<Rightarrow> None
                      | Some d \<Rightarrow> if o_DataType d = t then Some d else None) tab"
proof (induction tab arbitrary: n)
  case Nil
  then show ?case by (simp add: map_filter_simps)
next
  case (Cons a tab)
  then show ?case by (cases a) (auto simp: map_filter_simps slot_of_simps)
qed

lemma objects_of_alt:
  "objects_of t tab =
   List.map_filter (\<lambda>slot. case slot of None \<Rightarrow> None
                      | Some d \<Rightarrow> if o_DataType d = t then Some d else None) tab"
  by (simp add: objects_of_def descriptors_of_alt objects_map_filter)

lemma objects_of_append: "objects_of t (xs @ ys) = objects_of t xs @ objects_of t ys"
  by (simp add: objects_of_alt map_filter_def)

lemma objects_of_single:
  "objects_of t [Some d] = (if o_DataType d = t then [d] else [])"
  by (simp add: objects_of_alt map_filter_simps)

lemma set_objects_of:
  "set (objects_of t tab) = {d. Some d \<in> set tab \<and> o_DataType d = t}"
  by (auto simp: objects_of_alt set_map_filter' split: option.splits if_splits)

lemma blob_digests_alt: "blob_digests tab = o_OCIBlobDigest ` set (objects_of DataOCIBlob tab)"
  by (auto simp: blob_digests_def objects_of_def image_iff split: prod.splits) force+

lemma root_indexes_alt: "root_indexes tab = map o_data (objects_of DataOCIRootIndex tab)"
  by (simp add: root_indexes_def objects_of_def case_prod_unfold)

section \<open>Package sif: deleting and adding objects\<close>

lemma DeleteObject_None:
  "DeleteObject i w = (None, w') \<Longrightarrow>
   \<exists>d. i < length (fi w) \<and> fi w ! i = Some d \<and> fi w' = (fi w)[i := None] \<and>
       trace w' = trace w @ [EvDelete i d] \<and> cacheDir w' = cacheDir w"
  by (cases "fault w")
     (auto simp: DeleteObject_def same_store_def split: option.splits if_splits
           dest!: fault_same)

lemma DeleteObject_Some: "DeleteObject i w = (Some e, w') \<Longrightarrow> same_store w w'"
  by (cases "fault w")
     (auto simp: DeleteObject_def split: option.splits if_splits dest!: fault_same)

lemma AddObject_None:
  "AddObject d w = (None, w') \<Longrightarrow>
   fi w' = fi w @ [Some d] \<and> trace w' = trace w @ [EvAdd d] \<and> cacheDir w' = cacheDir w"
  by (cases "fault w")
     (auto simp: AddObject_def same_store_def split: option.splits dest!: fault_same)

lemma AddObject_Some: "AddObject d w = (Some e, w') \<Longrightarrow> same_store w w'"
  by (cases "fault w")
     (auto simp: AddObject_def split: option.splits dest!: fault_same)

lemma deletes_blobs_refl: "deletes_blobs w w"
  by (simp add: deletes_blobs_def)

lemma same_store_deletes_blobs: "same_store w w' \<Longrightarrow> deletes_blobs w w'"
  by (simp add: same_store_def deletes_blobs_def)

lemma deletes_blobs_trans:
  assumes "deletes_blobs a b" "deletes_blobs b c"
  shows "deletes_blobs a c"
proof -
  from assms have len: "length (fi b) = length (fi a)" "length (fi c) = length (fi a)"
    and cd: "cacheDir c = cacheDir a"
    by (simp_all add: deletes_blobs_def)
  have slots: "fi c ! j = fi a ! j \<or>
          (fi c ! j = None \<and> (\<exists>d. fi a ! j = Some d \<and> o_DataType d = DataOCIBlob))"
    if "j < length (fi a)" for j
  proof -
    from assms(1) that have 1: "fi b ! j = fi a ! j \<or>
          (fi b ! j = None \<and> (\<exists>d. fi a ! j = Some d \<and> o_DataType d = DataOCIBlob))"
      by (simp add: deletes_blobs_def)
    from assms(2) that len have 2: "fi c ! j = fi b ! j \<or>
          (fi c ! j = None \<and> (\<exists>d. fi b ! j = Some d \<and> o_DataType d = DataOCIBlob))"
      by (simp add: deletes_blobs_def)
    from 1 2 show ?thesis by metis
  qed
  from assms obtain e1 e2 where "trace b = trace a @ e1" "list_all (\<lambda>ev. phase ev = 1) e1"
    "trace c = trace b @ e2" "list_all (\<lambda>ev. phase ev = 1) e2"
    by (auto simp: deletes_blobs_def)
  then have "trace c = trace a @ (e1 @ e2) \<and> list_all (\<lambda>ev. phase ev = 1) (e1 @ e2)" by simp
  with len cd slots show ?thesis unfolding deletes_blobs_def by blast
qed

lemma DeleteObject_deletes_blobs:
  assumes "DeleteObject i w = (r, w')" and "fi w ! i = Some d" "o_DataType d = DataOCIBlob"
  shows "deletes_blobs w w'"
proof (cases r)
  case None
  from DeleteObject_None[OF assms(1)[unfolded None]] assms(2,3)
  show ?thesis by (auto simp: deletes_blobs_def nth_list_update)
next
  case (Some e)
  with assms(1) show ?thesis by (auto dest!: DeleteObject_Some same_store_deletes_blobs)
qed

lemma deleteBlobsExcept_loop_effect:
  assumes "deleteBlobsExcept_loop descs keep w = (r, w')"
    and "slots_hold descs w" and "distinct (map fst descs)"
  shows "deletes_blobs w w' \<and>
         (r = None \<longrightarrow>
            (\<forall>j < length (fi w).
               fi w' ! j = (if \<exists>d. (j, d) \<in> set descs \<and> o_OCIBlobDigest d \<notin> Inr ` set keep
                            then None else fi w ! j)) \<and>
            (\<forall>(j, d) \<in> set descs. \<not> isl (o_OCIBlobDigest d)))"
  using assms
proof (induction descs arbitrary: w)
  case Nil
  then show ?case by (simp add: deletes_blobs_refl)
next
  case (Cons a descs)
  obtain i d where a: "a = (i, d)" by (cases a)
  from Cons.prems(2) have here: "i < length (fi w)" "fi w ! i = Some d" "o_DataType d = DataOCIBlob"
    and rest: "slots_hold descs w"
    by (auto simp: slots_hold_def a)
  from Cons.prems(3) have ni: "\<And>d'. (i, d') \<notin> set descs" and dist: "distinct (map fst descs)"
    by (auto simp: a image_iff)
  show ?case
  proof (cases "o_OCIBlobDigest d")
    case (Inl e)
    with Cons.prems(1) show ?thesis by (auto simp: a deletes_blobs_refl)
  next
    case (Inr dd)
    show ?thesis
    proof (cases "dd \<in> set keep")
      case True
      with Cons.prems(1) Inr have run: "deleteBlobsExcept_loop descs keep w = (r, w')"
        by (simp add: a)
      from Cons.IH[OF run rest dist] Inr True ni show ?thesis
        by (auto simp: a)
    next
      case False
      obtain x w1 where del: "DeleteObject i w = (x, w1)" by (cases "DeleteObject i w")
      have d1: "deletes_blobs w w1" by (rule DeleteObject_deletes_blobs[OF del here(2,3)])
      show ?thesis
      proof (cases x)
        case (Some e)
        with Cons.prems(1) Inr False del have "r = Some e" "w' = w1" by (auto simp: a)
        with d1 show ?thesis by simp
      next
        case None
        with Cons.prems(1) Inr False del have run: "deleteBlobsExcept_loop descs keep w1 = (r, w')"
          by (simp add: a)
        from DeleteObject_None[OF del[unfolded None]] have f1: "fi w1 = (fi w)[i := None]" by auto
        have rest1: "slots_hold descs w1"
          unfolding slots_hold_def f1
        proof (clarify)
          fix j d' assume m: "(j, d') \<in> set descs"
          with ni have "j \<noteq> i" by auto
          moreover from rest m have "j < length (fi w) \<and> fi w ! j = Some d' \<and>
              o_DataType d' = DataOCIBlob" by (auto simp: slots_hold_def)
          ultimately show "j < length ((fi w)[i := None]) \<and> (fi w)[i := None] ! j = Some d' \<and>
              o_DataType d' = DataOCIBlob" by simp
        qed
        note ih = Cons.IH[OF run rest1 dist]
        have "deletes_blobs w w'" using d1 ih by (blast intro: deletes_blobs_trans)
        moreover have "fi w' ! j = (if \<exists>d'. (j, d') \<in> set (a # descs) \<and>
                                       o_OCIBlobDigest d' \<notin> Inr ` set keep
                                    then None else fi w ! j)"
          if "r = None" "j < length (fi w)" for j
        proof -
          from ih that have e: "fi w' ! j = (if \<exists>d'. (j, d') \<in> set descs \<and>
                                       o_OCIBlobDigest d' \<notin> Inr ` set keep
                                    then None else fi w1 ! j)"
            by (simp add: f1)
          show ?thesis
          proof (cases "j = i")
            case True
            with e ni here Inr False show ?thesis by (auto simp: a f1)
          next
            case False
            with e show ?thesis by (auto simp: a f1)
          qed
        qed
        moreover have "\<forall>(j, d) \<in> set (a # descs). \<not> isl (o_OCIBlobDigest d)" if "r = None"
          using ih that Inr by (auto simp: a)
        ultimately show ?thesis by blast
      qed
    qed
  qed
qed

lemma deleteBlobsExcept_effect:
  assumes "deleteBlobsExcept keep w = (r, w')"
  shows "deletes_blobs w w' \<and>
         (r = None \<longrightarrow> fi w' = purge keep (fi w) \<and>
            list_all (\<lambda>d. \<not> isl (o_OCIBlobDigest d)) (objects_of DataOCIBlob (fi w)))"
proof -
  obtain x w0 where g: "GetDescriptors DataOCIBlob w = (x, w0)"
    by (cases "GetDescriptors DataOCIBlob w")
  note s0 = GetDescriptors_same[OF g]
  show ?thesis
  proof (cases x)
    case (Inl e)
    with assms g have "r = Some e" "w' = w0" by (auto simp: deleteBlobsExcept_def)
    with s0 show ?thesis by (simp add: same_store_deletes_blobs)
  next
    case (Inr descs)
    from GetDescriptors_Inr[OF g[unfolded Inr]]
    have descs: "descs = descriptors_of DataOCIBlob (fi w)" .
    from assms g Inr have run: "deleteBlobsExcept_loop descs keep w0 = (r, w')"
      by (simp add: deleteBlobsExcept_def)
    have f0: "fi w0 = fi w" using s0 by (simp add: same_store_def)
    have hold: "slots_hold descs w0"
      by (auto simp: slots_hold_def descs f0 in_descriptors_of)
    have dist: "distinct (map fst descs)" by (simp add: descs distinct_descriptors_of)
    note eff = deleteBlobsExcept_loop_effect[OF run hold dist]
    have d: "deletes_blobs w w'"
      using same_store_deletes_blobs[OF s0] eff by (blast intro: deletes_blobs_trans)
    have "fi w' = purge keep (fi w)" if "r = None"
    proof (rule nth_equalityI)
      show "length (fi w') = length (purge keep (fi w))"
        using d by (simp add: deletes_blobs_def purge_def)
    next
      fix j assume "j < length (fi w')"
      then have j: "j < length (fi w)" using d by (simp add: deletes_blobs_def)
      from eff that have "\<forall>j < length (fi w0). fi w' ! j =
          (if \<exists>d. (j, d) \<in> set descs \<and> o_OCIBlobDigest d \<notin> Inr ` set keep
           then None else fi w0 ! j)" by blast
      with j have "fi w' ! j =
          (if \<exists>d. (j, d) \<in> set descs \<and> o_OCIBlobDigest d \<notin> Inr ` set keep
           then None else fi w ! j)" unfolding f0 by blast
      then show "fi w' ! j = purge keep (fi w) ! j"
        using j by (auto simp: purge_def descs in_descriptors_of split: option.splits)
    qed
    moreover have "list_all (\<lambda>d. \<not> isl (o_OCIBlobDigest d)) (objects_of DataOCIBlob (fi w))"
      if "r = None"
      using eff that by (auto simp: list_all_iff objects_of_def descs)
    ultimately show ?thesis using d by blast
  qed
qed

lemma deleteRootIndex_effect:
  assumes "deleteRootIndex w = (r, w')"
  shows "cacheDir w' = cacheDir w \<and>
         (if r = None
          then \<exists>i d. descriptors_of DataOCIRootIndex (fi w) = [(i, d)] \<and>
                 fi w' = (fi w)[i := None] \<and> trace w' = trace w @ [EvDelete i d]
          else fi w' = fi w \<and> trace w' = trace w)"
proof -
  obtain x w0 where g: "GetDescriptor DataOCIRootIndex w = (x, w0)"
    by (cases "GetDescriptor DataOCIRootIndex w")
  note s0 = GetDescriptor_same[OF g]
  show ?thesis
  proof (cases x)
    case (Inl e)
    with assms g have "r = Some e" "w' = w0" by (auto simp: deleteRootIndex_def)
    with s0 show ?thesis by (simp add: same_store_def)
  next
    case (Inr p)
    obtain i d where p: "p = (i, d)" by (cases p)
    from GetDescriptor_Inr[OF g[unfolded Inr p]]
    have one: "descriptors_of DataOCIRootIndex (fi w) = [(i, d)]" .
    then have "(i, d) \<in> set (descriptors_of DataOCIRootIndex (fi w))" by simp
    then have at: "fi w ! i = Some d" by (simp add: in_descriptors_of)
    from assms g Inr p have del: "DeleteObject i w0 = (r, w')"
      by (simp add: deleteRootIndex_def)
    show ?thesis
    proof (cases r)
      case None
      from DeleteObject_None[OF del[unfolded None]] s0 at one None
      show ?thesis by (auto simp: same_store_def)
    next
      case (Some e)
      from DeleteObject_Some[OF del[unfolded Some]] s0 Some
      show ?thesis by (auto simp: same_store_def)
    qed
  qed
qed

lemma cache_lookup_cong: "cacheDir w' = cacheDir w \<Longrightarrow> cache_lookup w' = cache_lookup w"
  by (auto simp: cache_lookup_def fun_eq_iff)

lemma readCacheBlob_Inr: "readCacheBlob b w = (Inr rc, w') \<Longrightarrow> cache_lookup w b = Some rc"
  by (auto simp: readCacheBlob_def cache_lookup_def dest!: os_Open_Inr)

lemma Update_write_effect:
  "Update_write H bs w = (r, w') \<Longrightarrow>
   cacheDir w' = cacheDir w \<and>
   (\<exists>cs. fi w' = fi w @ map (\<lambda>c. Some (blob_object H c)) cs \<and>
         trace w' = trace w @ map (\<lambda>c. EvAdd (blob_object H c)) cs \<and>
         (r = None \<longrightarrow> map (cache_lookup w) bs = map Some cs))"
proof (induction bs arbitrary: w)
  case Nil
  then show ?case by simp
next
  case (Cons b bs)
  obtain x w1 where rd: "readCacheBlob b w = (x, w1)" by (cases "readCacheBlob b w")
  have s1: "same_store w w1" using rd by (auto simp: readCacheBlob_def dest: os_Open_same)
  show ?case
  proof (cases x)
    case (Inl e)
    with Cons.prems rd have "r = Some e" "w' = w1" by auto
    with s1 show ?thesis by (auto simp: same_store_def intro: exI[of _ "[]"])
  next
    case (Inr rc)
    note look = readCacheBlob_Inr[OF rd[unfolded Inr]]
    obtain y w2 where wr: "AddObject (blob_object H rc) w1 = (y, w2)"
      by (cases "AddObject (blob_object H rc) w1")
    show ?thesis
    proof (cases y)
      case (Some e)
      with Cons.prems rd Inr wr have "r = Some e" "w' = w2"
        by (auto simp: writeBlobToFileImage_def blob_object_def)
      with s1 AddObject_Some[OF wr[unfolded Some]] show ?thesis
        by (auto simp: same_store_def intro: exI[of _ "[]"])
    next
      case None
      note a = AddObject_None[OF wr[unfolded None]]
      obtain z w3 where cl: "rc_Close w2 = (z, w3)" by (cases "rc_Close w2")
      note s3 = rc_Close_same[OF cl]
      have base: "cacheDir w3 = cacheDir w" "fi w3 = fi w @ [Some (blob_object H rc)]"
        "trace w3 = trace w @ [EvAdd (blob_object H rc)]"
        using s1 a s3 by (auto simp: same_store_def)
      show ?thesis
      proof (cases z)
        case (Some e)
        with Cons.prems rd Inr wr None cl have "r = Some e" "w' = w3"
          by (auto simp: writeBlobToFileImage_def blob_object_def)
        with base show ?thesis by (auto intro: exI[of _ "[rc]"])
      next
        case None3: None
        with Cons.prems rd Inr wr None cl have run: "Update_write H bs w3 = (r, w')"
          by (auto simp: writeBlobToFileImage_def blob_object_def)
        from Cons.IH[OF run] obtain cs where cs: "cacheDir w' = cacheDir w3"
          "fi w' = fi w3 @ map (\<lambda>c. Some (blob_object H c)) cs"
          "trace w' = trace w3 @ map (\<lambda>c. EvAdd (blob_object H c)) cs"
          "r = None \<longrightarrow> map (cache_lookup w3) bs = map Some cs" by blast
        have "cache_lookup w3 = cache_lookup w" using base(1) by (rule cache_lookup_cong)
        with cs base look show ?thesis
          by (auto intro!: exI[of _ "rc # cs"])
      qed
    qed
  qed
qed

lemma objects_of_Some_list:
  "objects_of t (map Some ds) = filter (\<lambda>d. o_DataType d = t) ds"
  by (induction ds) (auto simp: objects_of_alt map_filter_simps)

lemma objects_of_delete_only:
  assumes "descriptors_of t tab = [(i, d)]"
  shows "objects_of t (tab[i := None]) = []"
proof (cases "descriptors_of t (tab[i := None])")
  case Nil
  then show ?thesis by (simp add: objects_of_def)
next
  case (Cons p ps)
  obtain j e where p: "p = (j, e)" by (cases p)
  from Cons have m: "(j, e) \<in> set (descriptors_of t (tab[i := None]))" by (simp add: p)
  then have j: "j < length tab" "tab[i := None] ! j = Some e" "o_DataType e = t"
    by (simp_all add: in_descriptors_of)
  then have ne: "j \<noteq> i" by (cases "j = i") auto
  with j have "(j, e) \<in> set (descriptors_of t tab)" by (simp add: in_descriptors_of)
  with assms ne show ?thesis by simp
qed

lemma in_set_delete_other:
  assumes "tab ! i = Some r" "i < length tab" "o_DataType r \<noteq> t"
  shows "(Some d \<in> set (tab[i := None]) \<and> o_DataType d = t) \<longleftrightarrow>
         (Some d \<in> set tab \<and> o_DataType d = t)"
proof
  assume a: "Some d \<in> set (tab[i := None]) \<and> o_DataType d = t"
  then obtain j where "j < length tab" "tab[i := None] ! j = Some d"
    by (auto simp: in_set_conv_nth)
  then have "tab ! j = Some d" by (cases "j = i") auto
  with \<open>j < length tab\<close> a show "Some d \<in> set tab \<and> o_DataType d = t"
    by (auto simp: in_set_conv_nth)
next
  assume a: "Some d \<in> set tab \<and> o_DataType d = t"
  then obtain j where j: "j < length tab" "tab ! j = Some d" by (auto simp: in_set_conv_nth)
  with assms a have "j \<noteq> i" by auto
  with j have "tab[i := None] ! j = Some d" by simp
  with j a show "Some d \<in> set (tab[i := None]) \<and> o_DataType d = t"
    by (metis length_list_update nth_mem)
qed

lemma in_set_purge:
  "Some d \<in> set (purge keep tab) \<longleftrightarrow>
   Some d \<in> set tab \<and> \<not> (o_DataType d = DataOCIBlob \<and> o_OCIBlobDigest d \<notin> Inr ` set keep)"
  by (auto simp: purge_def image_iff split: option.splits if_splits)

lemma objects_of_purge_root:
  "objects_of DataOCIRootIndex (purge keep tab) = objects_of DataOCIRootIndex tab"
  by (induction tab)
     (auto simp: objects_of_alt purge_def map_filter_simps split: option.splits)

lemma descriptors_of_purge_root:
  "descriptors_of DataOCIRootIndex (purge keep tab) = descriptors_of DataOCIRootIndex tab"
proof -
  have "List.map_filter (slot_of DataOCIRootIndex) (enumerate n (purge keep tab)) =
        List.map_filter (slot_of DataOCIRootIndex) (enumerate n tab)" for n
    by (induction tab arbitrary: n)
       (auto simp: purge_def map_filter_simps slot_of_simps split: option.splits)
  then show ?thesis by (simp add: descriptors_of_alt)
qed

lemma stage_files_lookup:
  "n \<in> fst ` set st \<Longrightarrow> \<exists>c. (n, c) \<in> set st \<and> stage_files st f n = Some c"
proof (induction st arbitrary: f rule: rev_induct)
  case Nil
  then show ?case by simp
next
  case (snoc a st)
  obtain m c where a: "a = (m, c)" by (cases a)
  show ?case
  proof (cases "m = n")
    case True
    then show ?thesis by (auto simp: a stage_files_def)
  next
    case False
    with snoc.prems have "n \<in> fst ` set st" by (auto simp: a)
    from snoc.IH[OF this, of f] False show ?thesis by (auto simp: a stage_files_def)
  qed
qed

lemma staged_subset:
  "(n, c) \<in> set (staged skip rs) \<Longrightarrow> (n, Inr c) \<in> set rs \<and> n \<notin> set skip"
  by (auto simp: staged_def split: if_splits sum.splits)

lemma staged_keys:
  "list_all (\<lambda>(d, c). d \<in> set skip \<or> \<not> isl c) rs \<Longrightarrow>
   map fst (staged skip rs) = [d \<leftarrow> map fst rs. d \<notin> set skip]"
  by (induction rs) (auto simp: staged_def split: sum.splits)

lemma writeBlobToFileImage_root:
  "writeBlobToFileImage H ri True w = AddObject (root_object H ri) w"
  by (simp add: writeBlobToFileImage_def root_object_def)

lemma Update_cached_success:
  assumes "Update_cached H ii blobs w = (None, w')"
  shows "\<exists>rs ri i d dels cs.
      index_refs ii = Inr rs \<and> ii_RawManifest ii = Inr ri \<and>
      list_all (\<lambda>(n, c). n \<in> set blobs \<or> \<not> isl c) rs \<and>
      descriptors_of DataOCIRootIndex (fi w) = [(i, d)] \<and>
      fi w' = (purge [n \<leftarrow> map fst rs. n \<in> set blobs] (fi w))[i := None] @
              map (\<lambda>c. Some (blob_object H c)) cs @ [Some (root_object H ri)] \<and>
      trace w' = trace w @ map (\<lambda>(n, c). EvStage n c) (staged blobs rs) @ dels @
                 [EvDelete i d] @ map (\<lambda>c. EvAdd (blob_object H c)) cs @
                 [EvAdd (root_object H ri)] \<and>
      list_all (\<lambda>ev. phase ev = 1) dels \<and>
      map (\<lambda>n. case cacheDir w of None \<Rightarrow> None
               | Some f \<Rightarrow> stage_files (staged blobs rs) f n)
          [n \<leftarrow> map fst rs. n \<notin> set blobs] = map Some cs \<and>
      list_all (\<lambda>d. \<not> isl (o_OCIBlobDigest d)) (objects_of DataOCIBlob (fi w))"
proof -
  from assms obtain cached keep w1 ri w2 w3 w4 where
    walk: "cacheIndexBlobs ii blobs w = (Inr (cached, keep), w1)"
    and ri: "ii_RawManifest ii = Inr ri"
    and del: "deleteBlobsExcept keep w1 = (None, w2)"
    and delr: "deleteRootIndex w2 = (None, w3)"
    and wr: "Update_write H cached w3 = (None, w4)"
    and root: "writeBlobToFileImage H ri True w4 = (None, w')"
    by (auto simp: Update_cached_def split: prod.splits sum.splits option.splits)
  from cacheIndexBlobs_walk[OF walk] obtain rs where rs: "index_refs ii = Inr rs"
    and wk: "walk_ok blobs rs ([], []) (cached, keep) w w1" by blast
  from wk have cached: "cached = [n \<leftarrow> map fst rs. n \<notin> set blobs]"
    and keep: "keep = [n \<leftarrow> map fst rs. n \<in> set blobs]"
    and serv: "list_all (\<lambda>(n, c). n \<in> set blobs \<or> \<not> isl c) rs"
    and f1: "fi w1 = fi w"
    and t1: "trace w1 = trace w @ map (\<lambda>(n, c). EvStage n c) (staged blobs rs)"
    and c1: "cacheDir w1 = map_option (stage_files (staged blobs rs)) (cacheDir w)"
    by (simp_all add: walk_ok_def)
  from deleteBlobsExcept_effect[OF del] have d2: "deletes_blobs w1 w2"
    and f2: "fi w2 = purge keep (fi w)"
    and ok: "list_all (\<lambda>d. \<not> isl (o_OCIBlobDigest d)) (objects_of DataOCIBlob (fi w))"
    by (simp_all add: f1)
  from d2 obtain dels where t2: "trace w2 = trace w1 @ dels"
    and pd: "list_all (\<lambda>ev. phase ev = 1) dels" and c2: "cacheDir w2 = cacheDir w1"
    by (auto simp: deletes_blobs_def)
  from deleteRootIndex_effect[OF delr] obtain i d where
    one: "descriptors_of DataOCIRootIndex (fi w2) = [(i, d)]"
    and f3: "fi w3 = (fi w2)[i := None]" and t3: "trace w3 = trace w2 @ [EvDelete i d]"
    and c3: "cacheDir w3 = cacheDir w2" by auto
  from Update_write_effect[OF wr] obtain cs where
    f4: "fi w4 = fi w3 @ map (\<lambda>c. Some (blob_object H c)) cs"
    and t4: "trace w4 = trace w3 @ map (\<lambda>c. EvAdd (blob_object H c)) cs"
    and look: "map (cache_lookup w3) cached = map Some cs" by auto
  from AddObject_None[OF root[unfolded writeBlobToFileImage_root]]
  have f5: "fi w' = fi w4 @ [Some (root_object H ri)]"
    and t5: "trace w' = trace w4 @ [EvAdd (root_object H ri)]" by simp_all
  have cl: "cache_lookup w3 = (\<lambda>n. case cacheDir w of None \<Rightarrow> None
               | Some f \<Rightarrow> stage_files (staged blobs rs) f n)"
    by (auto simp: cache_lookup_def c3 c2 c1 fun_eq_iff split: option.splits)
  have one': "descriptors_of DataOCIRootIndex (fi w) = [(i, d)]"
    using one by (simp add: f2 descriptors_of_purge_root)
  show ?thesis
    apply (rule exI[of _ rs], rule exI[of _ ri], rule exI[of _ i], rule exI[of _ d],
        rule exI[of _ dels], rule exI[of _ cs])
    using rs ri serv one' pd ok look
    by (simp add: f5 f4 f3 f2 t5 t4 t3 t2 t1 keep cached cl)
qed

section \<open>Package sif: the order of the changes\<close>

lemma sorted_const_phase: "list_all (\<lambda>ev. phase ev = k) evs \<Longrightarrow> sorted (map phase evs)"
  by (induction evs) (auto simp: list_all_iff)

lemma const_phase_bounds:
  "list_all (\<lambda>ev. phase ev = k) evs \<Longrightarrow> list_all (\<lambda>ev. k \<le> phase ev \<and> phase ev \<le> k) evs"
  by (simp add: list_all_iff)

lemma objects_of_new_blobs:
  "objects_of DataOCIRootIndex (map (\<lambda>c. Some (blob_object H c)) cs) = []"
  by (induction cs) (auto simp: objects_of_alt map_filter_simps blob_object_def)

lemma progress_same: "fi w' = fi w \<Longrightarrow> trace w' = trace w \<Longrightarrow> progress lo hi w w'"
  by (simp add: progress_def)

lemma progress_same_store: "same_store w w' \<Longrightarrow> progress lo hi w w'"
  by (simp add: same_store_def progress_same)

lemma progress_widen:
  "progress a b w w' \<Longrightarrow> a' \<le> a \<Longrightarrow> b \<le> b' \<Longrightarrow> progress a' b' w w'"
  by (fastforce simp: progress_def list_all_iff)

lemma progress_seq:
  assumes "progress a b w w1" "progress c d w1 w2" "b \<le> c"
  shows "progress (min a c) (max b d) w w2"
proof -
  from assms obtain e1 e2 where 1: "trace w1 = trace w @ e1" "sorted (map phase e1)"
    "list_all (\<lambda>ev. a \<le> phase ev \<and> phase ev \<le> b) e1"
    and 2: "trace w2 = trace w1 @ e2" "sorted (map phase e2)"
    "list_all (\<lambda>ev. c \<le> phase ev \<and> phase ev \<le> d) e2"
    by (auto simp: progress_def)
  have "trace w2 = trace w @ (e1 @ e2)" using 1 2 by simp
  moreover have "sorted (map phase (e1 @ e2))"
    using 1 2 assms(3) by (fastforce simp: sorted_append list_all_iff)
  moreover have "list_all (\<lambda>ev. min a c \<le> phase ev \<and> phase ev \<le> max b d) (e1 @ e2)"
    using 1 2 by (fastforce simp: list_all_iff)
  moreover have "set (objects_of DataOCIRootIndex (fi w2)) \<subseteq>
                 set (objects_of DataOCIRootIndex (fi w))"
    using assms by (auto simp: progress_def)
  ultimately show ?thesis unfolding progress_def by blast
qed

lemma progress_then:
  assumes "progress 0 b w w1" "progress c d w1 w2" "b \<le> c" "c \<le> d" "d \<le> 3"
  shows "progress 0 3 w w2"
  using progress_seq[OF assms(1,2,3)] assms(3,4,5)
  by (auto intro: progress_widen)

lemma only_stages_progress: "only_stages w w' \<Longrightarrow> progress 0 0 w w'"
  by (auto simp: only_stages_def progress_def dest: sorted_const_phase)

lemma deletes_blobs_progress:
  assumes "deletes_blobs w w'"
  shows "progress 1 1 w w'"
proof -
  have "Some d \<in> set (fi w)" if "Some d \<in> set (fi w')" for d
  proof -
    from that obtain j where j: "j < length (fi w')" "fi w' ! j = Some d"
      by (auto simp: in_set_conv_nth)
    with assms have "j < length (fi w)" "fi w ! j = Some d"
      by (auto simp: deletes_blobs_def)
    then show ?thesis by (metis nth_mem)
  qed
  then have "set (objects_of DataOCIRootIndex (fi w')) \<subseteq>
             set (objects_of DataOCIRootIndex (fi w))"
    by (auto simp: set_objects_of)
  moreover from assms obtain evs where "trace w' = trace w @ evs"
    "list_all (\<lambda>ev. phase ev = 1) evs" by (auto simp: deletes_blobs_def)
  ultimately show ?thesis
    unfolding progress_def
    using sorted_const_phase[of 1 evs] const_phase_bounds[of 1 evs] by blast
qed

lemma in_set_update_None: "Some d \<in> set (tab[i := None]) \<Longrightarrow> Some d \<in> set tab"
proof -
  assume "Some d \<in> set (tab[i := None])"
  then obtain j where j: "j < length tab" "tab[i := None] ! j = Some d"
    by (auto simp: in_set_conv_nth)
  then have "tab ! j = Some d" by (cases "j = i") auto
  with j show ?thesis by (metis nth_mem)
qed

lemma deleteRootIndex_progress:
  assumes "deleteRootIndex w = (r, w')"
  shows "progress 2 2 w w'"
proof (cases r)
  case None
  from deleteRootIndex_effect[OF assms] None obtain i d where
    one: "descriptors_of DataOCIRootIndex (fi w) = [(i, d)]"
    and f: "fi w' = (fi w)[i := None]" and t: "trace w' = trace w @ [EvDelete i d]" by auto
  from one have "(i, d) \<in> set (descriptors_of DataOCIRootIndex (fi w))" by simp
  then have ty: "o_DataType d = DataOCIRootIndex" by (simp add: in_descriptors_of)
  show ?thesis
    unfolding progress_def
    by (auto simp: f t ty set_objects_of dest: in_set_update_None)
next
  case (Some e)
  with deleteRootIndex_effect[OF assms] show ?thesis by (simp add: progress_same)
qed

lemma Update_write_progress:
  assumes "Update_write H bs w = (r, w')"
  shows "progress 3 3 w w'"
proof -
  from Update_write_effect[OF assms] obtain cs where
    f: "fi w' = fi w @ map (\<lambda>c. Some (blob_object H c)) cs"
    and t: "trace w' = trace w @ map (\<lambda>c. EvAdd (blob_object H c)) cs" by auto
  have p: "list_all (\<lambda>ev. phase ev = 3) (map (\<lambda>c. EvAdd (blob_object H c)) cs)"
    by (induction cs) (auto simp: blob_object_def)
  have "objects_of DataOCIRootIndex (fi w') = objects_of DataOCIRootIndex (fi w)"
    unfolding f objects_of_append by (simp add: objects_of_new_blobs)
  with t show ?thesis
    unfolding progress_def
    using sorted_const_phase[OF p] const_phase_bounds[OF p] by auto
qed

lemma progress_step:
  assumes "progress 0 b w w1" "progress c c w1 w2" "b \<le> c"
  shows "progress 0 c w w2"
  using progress_seq[OF assms] assms(3) by (simp add: max_def)

lemma Update_cached_fail:
  assumes "Update_cached H ii blobs w = (Some e, w')"
  shows "progress 0 3 w w'"
proof -
  obtain x w1 where walk: "cacheIndexBlobs ii blobs w = (x, w1)"
    by (cases "cacheIndexBlobs ii blobs w")
  have p1: "progress 0 0 w w1"
    using cacheIndexBlobs_only_stages[OF walk] by (rule only_stages_progress)
  show ?thesis
  proof (cases x)
    case (Inl e1)
    with assms walk have "w' = w1" by (simp add: Update_cached_def)
    with p1 show ?thesis by (auto intro: progress_widen)
  next
    case (Inr ck)
    obtain cached keep where ck: "ck = (cached, keep)" by (cases ck)
    show ?thesis
    proof (cases "ii_RawManifest ii")
      case (Inl e2)
      with assms walk Inr ck have "w' = w1" by (simp add: Update_cached_def)
      with p1 show ?thesis by (auto intro: progress_widen)
    next
      case ri: (Inr ri)
      obtain y w2 where del: "deleteBlobsExcept keep w1 = (y, w2)"
        by (cases "deleteBlobsExcept keep w1")
      from deleteBlobsExcept_effect[OF del] have "deletes_blobs w1 w2" by blast
      then have "progress 1 1 w1 w2" by (rule deletes_blobs_progress)
      from progress_step[OF p1 this] have p2: "progress 0 1 w w2" by simp
      show ?thesis
      proof (cases y)
        case (Some e3)
        with assms walk Inr ck ri del have "w' = w2" by (simp add: Update_cached_def)
        with p2 show ?thesis by (auto intro: progress_widen)
      next
        case None
        obtain z w3 where delr: "deleteRootIndex w2 = (z, w3)" by (cases "deleteRootIndex w2")
        from progress_step[OF p2 deleteRootIndex_progress[OF delr]]
        have p3: "progress 0 2 w w3" by simp
        show ?thesis
        proof (cases z)
          case (Some e4)
          with assms walk Inr ck ri del None delr have "w' = w3"
            by (simp add: Update_cached_def)
          with p3 show ?thesis by (auto intro: progress_widen)
        next
          case None2: None
          obtain u w4 where wr: "Update_write H cached w3 = (u, w4)"
            by (cases "Update_write H cached w3")
          from progress_step[OF p3 Update_write_progress[OF wr]]
          have p4: "progress 0 3 w w4" by simp
          show ?thesis
          proof (cases u)
            case (Some e5)
            with assms walk Inr ck ri del None delr None2 wr have "w' = w4"
              by (simp add: Update_cached_def)
            with p4 show ?thesis by simp
          next
            case None3: None
            with assms walk Inr ck ri del None delr None2 wr
            have "AddObject (root_object H ri) w4 = (Some e, w')"
              by (simp add: Update_cached_def writeBlobToFileImage_root)
            from AddObject_Some[OF this] have "progress 3 3 w4 w'"
              by (rule progress_same_store)
            from progress_step[OF p4 this] show ?thesis by simp
          qed
        qed
      qed
    qed
  qed
qed

lemma os_MkdirTemp_effect:
  "os_MkdirTemp dir w = (r, w') \<Longrightarrow>
   fi w' = fi w \<and> trace w' = trace w \<and> (r = None \<longrightarrow> cacheDir w' = Some Map.empty)"
  by (cases "fault w")
     (auto simp: os_MkdirTemp_def same_store_def split: option.splits dest!: fault_same)

lemma os_RemoveAll_effect:
  "fi (os_RemoveAll w) = fi w \<and> trace (os_RemoveAll w) = trace w \<and>
   cacheDir (os_RemoveAll w) = None"
  by (simp add: os_RemoveAll_def)

lemma Update_cases:
  assumes "Update H ii opts w = (r, w')"
  shows "(\<exists>e. r = Some e \<and> fi w' = fi w \<and> trace w' = trace w) \<or>
         (r = None \<and> same_store w w' \<and>
            (\<exists>r0. root_indexes (fi w) = [r0] \<and> ii_Digest ii = Inr (H r0))) \<or>
         (\<exists>r0 blobs w3 w4.
            root_indexes (fi w) = [r0] \<and> ii_Digest ii \<noteq> Inr (H r0) \<and>
            map (\<lambda>(i, d). o_OCIBlobDigest d) (descriptors_of DataOCIBlob (fi w)) = map Inr blobs \<and>
            fi w3 = fi w \<and> trace w3 = trace w \<and> cacheDir w3 = Some Map.empty \<and>
            Update_cached H ii blobs w3 = (r, w4) \<and>
            fi w' = fi w4 \<and> trace w' = trace w4)"
proof (cases "applyOpts opts \<lparr>tempDir = []\<rparr>")
  case (Inl e)
  with assms show ?thesis by (auto simp: Update_def)
next
  case uo: (Inr uo)
  obtain x w1 where root: "ImageIndexFromFileImage w = (x, w1)"
    by (cases "ImageIndexFromFileImage w")
  note s1 = ImageIndexFromFileImage_same[OF root]
  show ?thesis
  proof (cases x)
    case (Inl e)
    with assms uo root s1 show ?thesis by (auto simp: Update_def same_store_def)
  next
    case r0: (Inr r0)
    note one = ImageIndexFromFileImage_Inr[OF root[unfolded r0]]
    show ?thesis
    proof (cases "ii_Digest ii")
      case (Inl e)
      with assms uo root r0 s1 show ?thesis
        by (auto simp: Update_def rootIndex_Digest_def same_store_def)
    next
      case nd: (Inr nd)
      show ?thesis
      proof (cases "H r0 = nd")
        case True
        with assms uo root r0 nd s1 one show ?thesis
          by (auto simp: Update_def rootIndex_Digest_def)
      next
        case False
        obtain y w2 where sb: "sifBlobs w1 = (y, w2)" by (cases "sifBlobs w1")
        note s2 = sifBlobs_same[OF sb]
        show ?thesis
        proof (cases y)
          case (Inl e)
          with assms uo root r0 nd False sb s1 s2 show ?thesis
            by (auto simp: Update_def rootIndex_Digest_def same_store_def)
        next
          case blobs: (Inr blobs)
          from sifBlobs_Inr[OF sb[unfolded blobs]] s1
          have bl: "map (\<lambda>(i, d). o_OCIBlobDigest d) (descriptors_of DataOCIBlob (fi w)) =
                    map Inr blobs" by (simp add: same_store_def)
          obtain z w3 where mk: "os_MkdirTemp (tempDir uo) w2 = (z, w3)"
            by (cases "os_MkdirTemp (tempDir uo) w2")
          note m = os_MkdirTemp_effect[OF mk]
          show ?thesis
          proof (cases z)
            case (Some e)
            with assms uo root r0 nd False sb blobs mk m s1 s2 show ?thesis
              by (auto simp: Update_def rootIndex_Digest_def same_store_def)
          next
            case None
            obtain u w4 where uc: "Update_cached H ii blobs w3 = (u, w4)"
              by (cases "Update_cached H ii blobs w3")
            with assms uo root r0 nd False sb blobs mk None
            have res: "r = u" "w' = os_RemoveAll w4"
              by (auto simp: Update_def rootIndex_Digest_def)
            have "fi w3 = fi w" "trace w3 = trace w" "cacheDir w3 = Some Map.empty"
              using m s1 s2 None by (auto simp: same_store_def)
            with one nd False bl uc res show ?thesis
              by (auto simp: os_RemoveAll_effect)
          qed
        qed
      qed
    qed
  qed
qed

lemma Update_fail:
  assumes "Update H ii opts w = (Some e, w')"
  shows "progress 0 3 w w'"
proof -
  from Update_cases[OF assms]
  consider "fi w' = fi w \<and> trace w' = trace w"
    | w3 w4 blobs where "fi w3 = fi w" "trace w3 = trace w"
        "Update_cached H ii blobs w3 = (Some e, w4)" "fi w' = fi w4" "trace w' = trace w4"
    by auto
  then show ?thesis
  proof cases
    case 1
    then show ?thesis by (simp add: progress_same)
  next
    case 2
    from Update_cached_fail[OF 2(3)] 2(1,2,4,5) show ?thesis
      by (simp add: progress_def)
  qed
qed

section \<open>Package sif: the runs of Update\<close>

lemma Update_None_cases:
  assumes "Update H ii opts w = (None, w')"
  shows "(same_store w w' \<and> (\<exists>r0. root_indexes (fi w) = [r0] \<and> ii_Digest ii = Inr (H r0))) \<or>
         ((\<exists>r0. root_indexes (fi w) = [r0] \<and> ii_Digest ii \<noteq> Inr (H r0)) \<and>
          (\<exists>blobs rs ri i d dels cs. full_run H ii w w' blobs rs ri i d dels cs))"
proof -
  from Update_cases[OF assms]
  consider (short) "same_store w w'" "\<exists>r0. root_indexes (fi w) = [r0] \<and> ii_Digest ii = Inr (H r0)"
    | (full) r0 blobs w3 w4 where "root_indexes (fi w) = [r0]" "ii_Digest ii \<noteq> Inr (H r0)"
        "map (\<lambda>(i, d). o_OCIBlobDigest d) (descriptors_of DataOCIBlob (fi w)) = map Inr blobs"
        "fi w3 = fi w" "trace w3 = trace w" "cacheDir w3 = Some Map.empty"
        "Update_cached H ii blobs w3 = (None, w4)" "fi w' = fi w4" "trace w' = trace w4"
    by auto
  then show ?thesis
  proof cases
    case short
    then show ?thesis by blast
  next
    case full
    from Update_cached_success[OF full(7)] obtain rs ri i d dels cs where
      "index_refs ii = Inr rs" "ii_RawManifest ii = Inr ri"
      "list_all (\<lambda>(n, c). n \<in> set blobs \<or> \<not> isl c) rs"
      "descriptors_of DataOCIRootIndex (fi w3) = [(i, d)]"
      "fi w4 = (purge [n \<leftarrow> map fst rs. n \<in> set blobs] (fi w3))[i := None] @
              map (\<lambda>c. Some (blob_object H c)) cs @ [Some (root_object H ri)]"
      "trace w4 = trace w3 @ map (\<lambda>(n, c). EvStage n c) (staged blobs rs) @ dels @
                 [EvDelete i d] @ map (\<lambda>c. EvAdd (blob_object H c)) cs @
                 [EvAdd (root_object H ri)]"
      "list_all (\<lambda>ev. phase ev = 1) dels"
      "map (\<lambda>n. case cacheDir w3 of None \<Rightarrow> None
               | Some f \<Rightarrow> stage_files (staged blobs rs) f n)
          [n \<leftarrow> map fst rs. n \<notin> set blobs] = map Some cs"
      by blast
    with full have "full_run H ii w w' blobs rs ri i d dels cs"
      by (simp add: full_run_def)
    with full(1,2) show ?thesis by blast
  qed
qed

lemma full_run_roots:
  assumes "full_run H ii w w' blobs rs ri i d dels cs"
  shows "root_indexes (fi w') = [ri]"
proof -
  let ?keep = "[n \<leftarrow> map fst rs. n \<in> set blobs]"
  from assms have one: "descriptors_of DataOCIRootIndex (purge ?keep (fi w)) = [(i, d)]"
    by (simp add: full_run_def descriptors_of_purge_root)
  from assms have f: "fi w' = (purge ?keep (fi w))[i := None] @
              map (\<lambda>c. Some (blob_object H c)) cs @ [Some (root_object H ri)]"
    by (simp add: full_run_def)
  show ?thesis
    unfolding root_indexes_alt f objects_of_append
    by (simp add: objects_of_delete_only[OF one] objects_of_new_blobs objects_of_single
          root_object_def)
qed

lemma full_run_contents:
  assumes "full_run H ii w w' blobs rs ri i d dels cs"
  shows "list_all2 (\<lambda>n c. (n, Inr c) \<in> set rs \<and> (n, c) \<in> set (staged blobs rs))
           [n \<leftarrow> map fst rs. n \<notin> set blobs] cs"
proof -
  let ?st = "staged blobs rs"
  let ?cached = "[n \<leftarrow> map fst rs. n \<notin> set blobs]"
  from assms have serv: "list_all (\<lambda>(n, c). n \<in> set blobs \<or> \<not> isl c) rs"
    and look: "map (stage_files ?st Map.empty) ?cached = map Some cs"
    by (simp_all add: full_run_def)
  from look have len: "length ?cached = length cs" by (metis length_map)
  have keys: "map fst ?st = ?cached" by (rule staged_keys[OF serv])
  show ?thesis
  proof (rule list_all2_all_nthI[OF len])
    fix k assume k: "k < length ?cached"
    then have "?cached ! k \<in> set ?cached" by (rule nth_mem)
    then have "?cached ! k \<in> fst ` set ?st" using keys by (metis set_map)
    from stage_files_lookup[OF this, of Map.empty] obtain c where
      c: "(?cached ! k, c) \<in> set ?st" "stage_files ?st Map.empty (?cached ! k) = Some c"
      by blast
    from look k len have "stage_files ?st Map.empty (?cached ! k) = Some (cs ! k)"
      by (metis nth_map)
    with c have "c = cs ! k" by simp
    with c(1) staged_subset[OF c(1)]
    show "(?cached ! k, Inr (cs ! k)) \<in> set rs \<and> (?cached ! k, cs ! k) \<in> set ?st" by simp
  qed
qed

text \<open>
  Claim C7, as amended. The walk of the target index does not remember the digests it has
  met: the only digests it does not stage are those of the skip list it is called with.
  When the walk succeeds, the list of cached digests is the list of the digests the target
  references that are not in the skip list, and the list of skipped digests is the list of
  those that are, both in the order of the walk and with a digest repeated as often as the
  target references it; and the walk has staged the content of every entry of the cached
  list, once per entry, so that a digest met a second time is staged again and appended
  again.
\<close>

theorem cacheIndexBlobs_no_dedup:
  assumes "cacheIndexBlobs ii skipDigests w = (Inr (cached, skipped), w')"
  shows "\<exists>rs. index_refs ii = Inr rs \<and>
           cached = [d \<leftarrow> map fst rs. d \<notin> set skipDigests] \<and>
           skipped = [d \<leftarrow> map fst rs. d \<in> set skipDigests] \<and>
           trace w' = trace w @ map (\<lambda>(d, b). EvStage d b) (staged skipDigests rs) \<and>
           map fst (staged skipDigests rs) = cached"
proof -
  from cacheIndexBlobs_walk[OF assms] obtain rs where rs: "index_refs ii = Inr rs"
    and wk: "walk_ok skipDigests rs ([], []) (cached, skipped) w w'" by blast
  from wk have "list_all (\<lambda>(d, c). d \<in> set skipDigests \<or> \<not> isl c) rs"
    by (simp add: walk_ok_def)
  from staged_keys[OF this] rs wk show ?thesis by (simp add: walk_ok_def)
qed

lemma purge_nth:
  "j < length tab \<Longrightarrow> purge keep tab ! j = None \<or> purge keep tab ! j = tab ! j"
  by (auto simp: purge_def split: option.splits)

lemma full_run_digests:
  assumes fr: "full_run H ii w w' blobs rs ri i d dels cs"
    and ca: "content_addressed H ii (fi w)"
  shows "blob_digests (fi w') = Inr ` fst ` set rs"
proof -
  let ?keep = "[n \<leftarrow> map fst rs. n \<in> set blobs]"
  let ?cached = "[n \<leftarrow> map fst rs. n \<notin> set blobs]"
  let ?X = "(purge ?keep (fi w))[i := None]"
  let ?B = "map (\<lambda>c. Some (blob_object H c)) cs"
  from fr have rs: "index_refs ii = Inr rs"
    and bl: "map (\<lambda>(i, d). o_OCIBlobDigest d) (descriptors_of DataOCIBlob (fi w)) = map Inr blobs"
    and one: "descriptors_of DataOCIRootIndex (fi w) = [(i, d)]"
    and f: "fi w' = ?X @ ?B @ [Some (root_object H ri)]"
    by (simp_all add: full_run_def)
  from one have "(i, d) \<in> set (descriptors_of DataOCIRootIndex (fi w))" by simp
  then have at: "i < length (fi w)" "fi w ! i = Some d" "o_DataType d = DataOCIRootIndex"
    by (simp_all add: in_descriptors_of)
  have pat: "purge ?keep (fi w) ! i = Some d" "i < length (purge ?keep (fi w))"
    using at by (simp_all add: purge_def)
  have ne: "o_DataType d \<noteq> DataOCIBlob" using at by simp
  have X: "o_OCIBlobDigest ` {e. Some e \<in> set ?X \<and> o_DataType e = DataOCIBlob} = Inr ` set ?keep"
  proof (rule set_eqI, rule iffI)
    fix x assume "x \<in> o_OCIBlobDigest ` {e. Some e \<in> set ?X \<and> o_DataType e = DataOCIBlob}"
    then obtain e where e: "Some e \<in> set ?X \<and> o_DataType e = DataOCIBlob"
      and x: "x = o_OCIBlobDigest e" by blast
    from e have "Some e \<in> set (purge ?keep (fi w)) \<and> o_DataType e = DataOCIBlob"
      using in_set_delete_other[OF pat ne, of e] by blast
    then show "x \<in> Inr ` set ?keep" unfolding x by (simp add: in_set_purge)
  next
    fix x :: "error + hash" assume "x \<in> Inr ` set ?keep"
    then obtain n where n: "n \<in> set ?keep" "x = Inr n" by blast
    then have "Inr n \<in> set (map Inr blobs)" by simp
    then have "Inr n \<in> set (map (\<lambda>(i, d). o_OCIBlobDigest d) (descriptors_of DataOCIBlob (fi w)))"
      by (simp only: bl)
    then obtain j e where je: "(j, e) \<in> set (descriptors_of DataOCIBlob (fi w))"
      "o_OCIBlobDigest e = Inr n" by auto
    then have "j < length (fi w)" "fi w ! j = Some e" "o_DataType e = DataOCIBlob"
      by (simp_all add: in_descriptors_of)
    then have "Some e \<in> set (fi w)" by (metis nth_mem)
    with je n \<open>o_DataType e = DataOCIBlob\<close>
    have "Some e \<in> set (purge ?keep (fi w)) \<and> o_DataType e = DataOCIBlob"
      by (simp add: in_set_purge)
    then have "Some e \<in> set ?X \<and> o_DataType e = DataOCIBlob"
      using in_set_delete_other[OF pat ne, of e] by blast
    with je(2) n(2) show "x \<in> o_OCIBlobDigest ` {e. Some e \<in> set ?X \<and> o_DataType e = DataOCIBlob}"
      by force
  qed
  have inb: "blob_digests (fi w) = Inr ` set blobs"
    by (simp add: blob_digests_def bl)
  from ca rs have addr: "\<And>n c. (n, Inr c) \<in> set rs \<Longrightarrow> n \<notin> set blobs \<Longrightarrow> H c = n"
    by (auto simp: content_addressed_def list_all_iff inb)
  have "list_all2 (\<lambda>n c. H c = n) ?cached cs"
    using full_run_contents[OF fr]
    by (rule list_all2_mono) (auto dest: staged_subset addr)
  then have hc: "map H cs = ?cached"
    by (induction rule: list_all2_induct) auto
  have B: "o_OCIBlobDigest ` {e. Some e \<in> set ?B \<and> o_DataType e = DataOCIBlob} = Inr ` set ?cached"
  proof -
    have "{e. Some e \<in> set ?B \<and> o_DataType e = DataOCIBlob} = blob_object H ` set cs"
      by (auto simp: blob_object_def)
    then have "o_OCIBlobDigest ` {e. Some e \<in> set ?B \<and> o_DataType e = DataOCIBlob} =
               Inr ` set (map H cs)"
      by (auto simp: blob_object_def image_iff)
    then show ?thesis by (simp only: hc)
  qed
  have "blob_digests (fi w') =
        o_OCIBlobDigest ` {e. Some e \<in> set ?X \<and> o_DataType e = DataOCIBlob} \<union>
        o_OCIBlobDigest ` {e. Some e \<in> set ?B \<and> o_DataType e = DataOCIBlob}"
    unfolding blob_digests_alt set_objects_of f
    by (auto simp: root_object_def)
  also have "\<dots> = Inr ` set ?keep \<union> Inr ` set ?cached" by (simp only: X B)
  also have "\<dots> = Inr ` fst ` set rs" by auto
  finally show ?thesis .
qed

lemma full_run_untouched:
  assumes fr: "full_run H ii w w' blobs rs ri i d dels cs" and j: "j < length (fi w)"
  shows "fi w' ! j = None \<or> fi w' ! j = fi w ! j"
proof -
  let ?keep = "[n \<leftarrow> map fst rs. n \<in> set blobs]"
  let ?X = "(purge ?keep (fi w))[i := None]"
  from fr have f: "fi w' = ?X @ map (\<lambda>c. Some (blob_object H c)) cs @ [Some (root_object H ri)]"
    by (simp add: full_run_def)
  have len: "length ?X = length (fi w)" by (simp add: purge_def)
  with j have "fi w' ! j = ?X ! j" by (simp add: f nth_append)
  also have "?X ! j = None \<or> ?X ! j = fi w ! j"
    using purge_nth[OF j, of ?keep] j len
    by (cases "j = i") auto
  finally show ?thesis by auto
qed

text \<open>
  Claim C1, as amended. After \<^verbatim>\<open>Update\<close> has returned success, the file image holds exactly
  one root index object, and every object that was in the file image is either deleted or
  left as it was. If the digest of the root index of the file image was the digest of the
  target, the file image is exactly as it was before the call, whatever blobs it holds.
  Otherwise the root index object holds the serialized bytes of the target and, when the
  target is content addressed relative to the file image (every digest it references that
  was not the digest of a blob of the file image is the hash of the content that the
  target serves for it), the set of digests of the content blobs of the file image is
  exactly the set of digests that the target references: no unreferenced blob remains and
  no referenced blob is missing.
\<close>

theorem update_end_state:
  assumes run: "Update H ii opts w = (None, w')"
  shows "\<exists>r0 b. root_indexes (fi w) = [r0] \<and> root_indexes (fi w') = [b] \<and>
           (\<forall>j < length (fi w). fi w' ! j = None \<or> fi w' ! j = fi w ! j) \<and>
           (ii_Digest ii = Inr (H r0) \<longrightarrow> fi w' = fi w) \<and>
           (ii_Digest ii \<noteq> Inr (H r0) \<longrightarrow>
              ii_RawManifest ii = Inr b \<and>
              (\<exists>rs. index_refs ii = Inr rs \<and>
                 (content_addressed H ii (fi w) \<longrightarrow>
                    blob_digests (fi w') = Inr ` fst ` set rs)))"
proof -
  from Update_None_cases[OF run]
  consider (short) r0 where "same_store w w'" "root_indexes (fi w) = [r0]"
      "ii_Digest ii = Inr (H r0)"
    | (full) r0 blobs rs ri i d dels cs where "root_indexes (fi w) = [r0]"
      "ii_Digest ii \<noteq> Inr (H r0)" "full_run H ii w w' blobs rs ri i d dels cs"
    by blast
  then show ?thesis
  proof cases
    case short
    then have "fi w' = fi w" by (simp add: same_store_def)
    with short(2,3) show ?thesis by simp
  next
    case full
    note fr = full(3)
    from fr have rs: "index_refs ii = Inr rs" and ri: "ii_RawManifest ii = Inr ri"
      by (simp_all add: full_run_def)
    have dg: "content_addressed H ii (fi w) \<longrightarrow> blob_digests (fi w') = Inr ` fst ` set rs"
      using full_run_digests[OF fr] by blast
    have un: "\<forall>j < length (fi w). fi w' ! j = None \<or> fi w' ! j = fi w ! j"
      using full_run_untouched[OF fr] by blast
    from full(1,2) full_run_roots[OF fr] un ri rs dg show ?thesis by simp
  qed
qed

text \<open>
  Claim C10. If \<^verbatim>\<open>Update\<close> fails before the deletion phase begins, it returns an error and
  the file image is as it was before the call: the same table of objects, hence the same
  content blobs and the same root index object.
\<close>

theorem update_failure_before_deletion:
  assumes "fails_before_deletion H ii opts w" and "Update H ii opts w = (r, w')"
  shows "r \<noteq> None \<and> fi w' = fi w \<and> blob_digests (fi w') = blob_digests (fi w) \<and>
         root_indexes (fi w') = root_indexes (fi w)"
proof -
  have "r \<noteq> None \<and> fi w' = fi w"
  proof (cases "applyOpts opts \<lparr>tempDir = []\<rparr>")
    case (Inl e)
    with assms show ?thesis by (auto simp: Update_def)
  next
    case uo: (Inr uo)
    obtain x w1 where root: "ImageIndexFromFileImage w = (x, w1)"
      by (cases "ImageIndexFromFileImage w")
    from ImageIndexFromFileImage_same[OF root] have f1: "fi w1 = fi w"
      by (simp add: same_store_def)
    show ?thesis
    proof (cases x)
      case (Inl e)
      with assms uo root f1 show ?thesis by (auto simp: Update_def)
    next
      case r0: (Inr r0)
      show ?thesis
      proof (cases "ii_Digest ii")
        case (Inl e)
        with assms uo root r0 f1 show ?thesis by (auto simp: Update_def rootIndex_Digest_def)
      next
        case nd: (Inr nd)
        from assms(1) uo root r0 nd have ne: "H r0 \<noteq> nd"
          by (auto simp: fails_before_deletion_def rootIndex_Digest_def)
        obtain y w2 where sb: "sifBlobs w1 = (y, w2)" by (cases "sifBlobs w1")
        from sifBlobs_same[OF sb] f1 have f2: "fi w2 = fi w" by (simp add: same_store_def)
        show ?thesis
        proof (cases y)
          case (Inl e)
          with assms uo root r0 nd ne sb f2 show ?thesis
            by (auto simp: Update_def rootIndex_Digest_def)
        next
          case blobs: (Inr blobs)
          obtain z w3 where mk: "os_MkdirTemp (tempDir uo) w2 = (z, w3)"
            by (cases "os_MkdirTemp (tempDir uo) w2")
          from os_MkdirTemp_effect[OF mk] f2 have f3: "fi w3 = fi w" by simp
          show ?thesis
          proof (cases z)
            case (Some e)
            with assms uo root r0 nd ne sb blobs mk f3 show ?thesis
              by (auto simp: Update_def rootIndex_Digest_def)
          next
            case None
            obtain u w4 where walk: "cacheIndexBlobs ii blobs w3 = (u, w4)"
              by (cases "cacheIndexBlobs ii blobs w3")
            from cacheIndexBlobs_only_stages[OF walk] f3 have f4: "fi w4 = fi w"
              by (simp add: only_stages_def)
            from assms(1) uo root r0 nd ne sb blobs mk None walk
            have fail: "isl u \<or> isl (ii_RawManifest ii)"
              by (auto simp: fails_before_deletion_def rootIndex_Digest_def split: sum.splits)
            have "\<exists>e. Update_cached H ii blobs w3 = (Some e, w4)"
              using fail walk
              by (auto simp: Update_cached_def split: sum.splits)
            then obtain e where "Update_cached H ii blobs w3 = (Some e, w4)" by blast
            with assms(2) uo root r0 nd ne sb blobs mk None f4 show ?thesis
              by (auto simp: Update_def rootIndex_Digest_def os_RemoveAll_def)
          qed
        qed
      qed
    qed
  qed
  then show ?thesis by simp
qed

lemma Update_matching:
  assumes "root_indexes (fi w) = [b]" and "ii_Digest ii = Inr (H b)"
    and "Update H ii opts w = (r, w')"
  shows "fi w' = fi w \<and> trace w' = trace w"
  using Update_cases[OF assms(3)] assms(1,2) by (auto simp: same_store_def)

lemma Update_success_root:
  assumes "Update H ii opts w = (None, w')" and "self_addressed H ii"
  shows "\<exists>b. root_indexes (fi w') = [b] \<and> ii_Digest ii = Inr (H b)"
proof -
  from Update_None_cases[OF assms(1)]
  consider (short) r0 where "same_store w w'" "root_indexes (fi w) = [r0]" "ii_Digest ii = Inr (H r0)"
    | (full) blobs rs ri i d dels cs where "full_run H ii w w' blobs rs ri i d dels cs"
    by blast
  then show ?thesis
  proof cases
    case short
    then show ?thesis by (simp add: same_store_def)
  next
    case full
    from full have "ii_RawManifest ii = Inr ri" by (simp add: full_run_def)
    with assms(2) have "ii_Digest ii = Inr (H ri)" by (simp add: self_addressed_def)
    with full_run_roots[OF full] show ?thesis by simp
  qed
qed

text \<open>
  Claim C2. When the root index of the file image has the digest of the target, \<^verbatim>\<open>Update\<close>
  returns success, and the file image, the trace of changes and the cache directory are as
  they were before the call: nothing is added, deleted or rewritten; and a second call
  with the same target, whatever it returns, again changes nothing. More generally, after
  any successful call with a target whose digest is the hash of its serialized manifest,
  a second call with the same target changes nothing.
\<close>

theorem update_idempotent:
  "(applyOpts opts \<lparr>tempDir = []\<rparr> = Inr uo \<and> ImageIndexFromFileImage w = (Inr r0, w1) \<and>
    ii_Digest ii = Inr (H r0) \<longrightarrow>
      Update H ii opts w = (None, w1) \<and>
      fi w1 = fi w \<and> trace w1 = trace w \<and> cacheDir w1 = cacheDir w \<and>
      (\<forall>r2 w2. Update H ii opts w1 = (r2, w2) \<longrightarrow> fi w2 = fi w \<and> trace w2 = trace w)) \<and>
   (Update H ii opts w = (None, w') \<and> self_addressed H ii \<and> Update H ii opts w' = (r', w'') \<longrightarrow>
      fi w'' = fi w' \<and> trace w'' = trace w')"
proof (intro conjI impI)
  assume a: "applyOpts opts \<lparr>tempDir = []\<rparr> = Inr uo \<and> ImageIndexFromFileImage w = (Inr r0, w1) \<and>
    ii_Digest ii = Inr (H r0)"
  then have root: "ImageIndexFromFileImage w = (Inr r0, w1)" by simp
  from ImageIndexFromFileImage_same[OF root]
  have same: "fi w1 = fi w" "trace w1 = trace w" "cacheDir w1 = cacheDir w"
    by (simp_all add: same_store_def)
  from ImageIndexFromFileImage_Inr[OF root] same have one: "root_indexes (fi w1) = [r0]" by simp
  from a show "Update H ii opts w = (None, w1)"
    by (simp add: Update_def rootIndex_Digest_def)
  show "fi w1 = fi w" "trace w1 = trace w" "cacheDir w1 = cacheDir w" by (rule same)+
  show "\<forall>r2 w2. Update H ii opts w1 = (r2, w2) \<longrightarrow> fi w2 = fi w \<and> trace w2 = trace w"
  proof (intro allI impI)
    fix r2 w2 assume "Update H ii opts w1 = (r2, w2)"
    from Update_matching[of w1 r0 ii H opts r2 w2, OF one _ this] a same
    show "fi w2 = fi w \<and> trace w2 = trace w" by simp
  qed
next
  assume b: "Update H ii opts w = (None, w') \<and> self_addressed H ii \<and> Update H ii opts w' = (r', w'')"
  then obtain b0 where b0: "root_indexes (fi w') = [b0]" "ii_Digest ii = Inr (H b0)"
    using Update_success_root by blast
  from b have "Update H ii opts w' = (r', w'')" by simp
  from Update_matching[of w' b0 ii H opts r' w'', OF b0 this]
  show "fi w'' = fi w'" "trace w'' = trace w'" by simp_all
qed

lemma phase_blob_adds: "list_all (\<lambda>ev. phase ev = 3) (map (\<lambda>c. EvAdd (blob_object H c)) cs)"
  by (induction cs) (auto simp: blob_object_def)

lemma sorted_phases_append:
  "sorted (map phase xs) \<Longrightarrow> sorted (map phase ys) \<Longrightarrow>
   list_all (\<lambda>ev. phase ev \<le> k) xs \<Longrightarrow> list_all (\<lambda>ev. k \<le> phase ev) ys \<Longrightarrow>
   sorted (map phase (xs @ ys))"
  by (fastforce simp: sorted_append list_all_iff)

text \<open>
  Claim C8. The changes that a call of \<^verbatim>\<open>Update\<close> makes are in the order of their phases:
  all staging, then the deletions of content blobs, then the deletion of the old root
  index, then the additions of content blobs, then the addition of the new root index.
  The new root index is added only by a call that succeeds, as its last change, and
  then a blob has been added for the content staged under every staged digest. A call
  that fails has added no root index: a root index that the file image holds afterwards
  is one it held before.
\<close>

theorem update_order:
  assumes "Update H ii opts w = (r, w')"
  shows "\<exists>evs. trace w' = trace w @ evs \<and> sorted (map phase evs) \<and>
           (\<forall>ev \<in> set evs. phase ev = 4 \<longrightarrow>
              r = None \<and>
              (\<exists>pre. evs = pre @ [ev] \<and> (\<forall>e \<in> set pre. phase e < 4) \<and>
                 (\<forall>n c. EvStage n c \<in> set pre \<longrightarrow>
                    (\<exists>c'. EvStage n c' \<in> set pre \<and> EvAdd (blob_object H c') \<in> set pre)))) \<and>
           (r \<noteq> None \<longrightarrow> set (root_indexes (fi w')) \<subseteq> set (root_indexes (fi w)))"
proof (cases r)
  case (Some e)
  from Update_fail[OF assms[unfolded Some]] obtain evs where
    evs: "trace w' = trace w @ evs" "sorted (map phase evs)"
      "list_all (\<lambda>ev. 0 \<le> phase ev \<and> phase ev \<le> 3) evs"
    and sub: "set (objects_of DataOCIRootIndex (fi w')) \<subseteq> set (objects_of DataOCIRootIndex (fi w))"
    by (auto simp: progress_def)
  from evs(3) have no4: "\<forall>ev \<in> set evs. phase ev \<noteq> 4" by (auto simp: list_all_iff)
  from sub have "set (root_indexes (fi w')) \<subseteq> set (root_indexes (fi w))"
    by (auto simp: root_indexes_alt)
  with evs(1,2) no4 show ?thesis by blast
next
  case None
  from Update_None_cases[OF assms[unfolded None]]
  consider (short) "same_store w w'"
    | (full) blobs rs ri i d dels cs where "full_run H ii w w' blobs rs ri i d dels cs"
    by blast
  then show ?thesis
  proof cases
    case short
    then have "trace w' = trace w @ []" by (simp add: same_store_def)
    then show ?thesis using None by (intro exI[of _ "[]"]) simp
  next
    case full
    let ?st = "staged blobs rs"
    let ?S = "map (\<lambda>(n, c). EvStage n c) ?st"
    let ?A = "map (\<lambda>c. EvAdd (blob_object H c)) cs"
    let ?pre = "?S @ dels @ [EvDelete i d] @ ?A"
    let ?root = "EvAdd (root_object H ri)"
    from full have tr: "trace w' = trace w @ ?pre @ [?root]"
      and dels: "list_all (\<lambda>ev. phase ev = 1) dels"
      and one: "descriptors_of DataOCIRootIndex (fi w) = [(i, d)]"
      and serv: "list_all (\<lambda>(n, c). n \<in> set blobs \<or> \<not> isl c) rs"
      by (simp_all add: full_run_def)
    from one have "(i, d) \<in> set (descriptors_of DataOCIRootIndex (fi w))" by simp
    then have d: "o_DataType d = DataOCIRootIndex" by (simp add: in_descriptors_of)
    have pS: "\<forall>e \<in> set ?S. phase e = 0" using phase_stage_events[of ?st] by (simp add: list_all_iff)
    have pD: "\<forall>e \<in> set dels. phase e = 1" using dels by (simp add: list_all_iff)
    have pA: "\<forall>e \<in> set ?A. phase e = 3" using phase_blob_adds[of H cs] by (simp add: list_all_iff)
    have pR: "phase ?root = 4" by (simp add: root_object_def)
    have pX: "phase (EvDelete i d) = 2" using d by simp
    have lt: "\<forall>e \<in> set ?pre. phase e < 4" using pS pD pA pX by auto
    have sS: "sorted (map phase ?S)" by (rule sorted_const_phase[OF phase_stage_events])
    have sD: "sorted (map phase dels)" by (rule sorted_const_phase[OF dels])
    have sA: "sorted (map phase ?A)" by (rule sorted_const_phase[OF phase_blob_adds])
    have srt: "sorted (map phase (?pre @ [?root]))"
      using sS sD sA pS pD pA pX pR by (auto simp: sorted_append)
    have added: "\<exists>c'. EvStage n c' \<in> set ?pre \<and> EvAdd (blob_object H c') \<in> set ?pre"
      if "EvStage n c \<in> set ?pre" for n c
    proof -
      from that pD pX have "EvStage n c \<in> set ?S" by (auto simp: blob_object_def)
      then have "n \<in> set (map fst ?st)" by force
      then have "n \<in> set [n \<leftarrow> map fst rs. n \<notin> set blobs]" by (simp only: staged_keys[OF serv])
      then obtain k where k: "k < length [n \<leftarrow> map fst rs. n \<notin> set blobs]"
        "[n \<leftarrow> map fst rs. n \<notin> set blobs] ! k = n" by (metis in_set_conv_nth)
      from full_run_contents[OF full] k
      have "(n, cs ! k) \<in> set ?st" "k < length cs"
        by (auto simp: list_all2_conv_all_nth)
      then have "EvStage n (cs ! k) \<in> set ?S" "EvAdd (blob_object H (cs ! k)) \<in> set ?A"
        by force+
      then show ?thesis by auto
    qed
    have only: "ev = ?root" if "ev \<in> set (?pre @ [?root])" "phase ev = 4" for ev
    proof (cases "ev \<in> set ?pre")
      case True
      with lt have "phase ev < 4" by blast
      with that(2) show ?thesis by simp
    next
      case False
      with that(1) show ?thesis by simp
    qed
    show ?thesis
    proof (rule exI[of _ "?pre @ [?root]"], intro conjI ballI impI)
      show "trace w' = trace w @ ?pre @ [?root]" by (rule tr)
      show "sorted (map phase (?pre @ [?root]))" by (rule srt)
    next
      fix ev assume ev: "ev \<in> set (?pre @ [?root])" "phase ev = 4"
      show "r = None" by (rule None)
      from only[OF ev] have "?pre @ [?root] = ?pre @ [ev]" by simp
      with lt added
      show "\<exists>pre. ?pre @ [?root] = pre @ [ev] \<and> (\<forall>e \<in> set pre. phase e < 4) \<and>
             (\<forall>n c. EvStage n c \<in> set pre \<longrightarrow>
                (\<exists>c'. EvStage n c' \<in> set pre \<and> EvAdd (blob_object H c') \<in> set pre))"
        by blast
    next
      assume "r \<noteq> None"
      with None show "set (root_indexes (fi w')) \<subseteq> set (root_indexes (fi w))" by simp
    qed
  qed
qed

section \<open>Package sif: the statements on the examples\<close>

lemmas ex_sif_defs = ex_H_def ex_blob_def ex_root_def ex_world_def ex_store_def ex_entry_def
  ex_R1_def ex_E_def ex_R2_def ex_R3_def ex_sif_layer_def ex_img_def ex_S_def
  ex_staging_def ex_faults_add_def ex_faults_stage_def
  Update_def Update_cached_def ImageIndexFromFileImage_def GetDescriptor_def GetDescriptors_def
  fault_def descriptors_of_def map_filter_simps rootIndex_Digest_def sifBlobs_def
  os_MkdirTemp_def os_RemoveAll_def os_Create_def io_Copy_def rc_Close_def os_Open_def
  ii_ImageIndex_def ii_Image_def blobFromIndex_def lookup_child_def
  writeCacheBlob_def readCacheBlob_def cacheImageBlobs_def
  deleteBlobsExcept_def deleteRootIndex_def DeleteObject_def AddObject_def
  writeBlobToFileImage_def
  DockerManifestList_def OCIImageIndex_def DockerManifestSchema2_def OCIManifestSchema1_def

lemma ex_run_R2:
  "Update ex_H ex_R2 [] (ex_world ex_store []) =
     (None,
      \<lparr>fi = [None, None, Some (ex_blob ''B''), None, Some (ex_blob ''D''), Some (ex_blob ''E''),
             Some (ex_root ''R2'')],
       cacheDir = None, faults = [],
       trace = [EvStage (ex_H ''D'') ''D'', EvStage (ex_H ''E'') ''E'',
                EvDelete 1 (ex_blob ''A''), EvDelete 3 (ex_blob ''C''), EvDelete 0 (ex_root ''R1''),
                EvAdd (ex_blob ''D''), EvAdd (ex_blob ''E''), EvAdd (ex_root ''R2'')]\<rparr>)"
  by (simp add: ex_sif_defs)

lemmas ex_refs_defs = image_refs_def content_addressed_def self_addressed_def blob_digests_def
  root_indexes_def

theorem update_end_state_witness:
  "root_indexes (fi (snd (Update ex_H ex_R2 [] (ex_world ex_store [])))) = [''R2''] \<and>
   blob_digests (fi (snd (Update ex_H ex_R2 [] (ex_world ex_store [])))) =
     {Inr (ex_H ''B''), Inr (ex_H ''D''), Inr (ex_H ''E'')} \<and>
   fi (snd (Update ex_H ex_R2 [] (ex_world ex_store []))) ! 2 = Some (ex_blob ''B'')"
proof -
  let ?w = "ex_world ex_store []"
  let ?w' = "snd (Update ex_H ex_R2 [] ?w)"
  have run: "Update ex_H ex_R2 [] ?w = (None, ?w')" by (simp add: ex_run_R2)
  have old: "root_indexes (fi ?w) = [''R1'']" by (simp add: ex_sif_defs ex_refs_defs)
  have differ: "ii_Digest ex_R2 \<noteq> Inr (ex_H ''R1'')" by (simp add: ex_sif_defs)
  have refs: "index_refs ex_R2 =
      Inr [(ex_H ''B'', Inr ''B''), (ex_H ''D'', Inr ''D''), (ex_H ''E'', Inr ''E'')]"
    by (simp add: ex_sif_defs ex_refs_defs)
  have ca: "content_addressed ex_H ex_R2 (fi ?w)"
    by (simp add: content_addressed_def refs) (simp add: ex_sif_defs)
  have at: "fi ?w ! 2 = Some (ex_blob ''B'')" "2 < length (fi ?w)"
    by (simp_all add: ex_world_def ex_store_def)
  have kept: "fi ?w' ! 2 \<noteq> None" by (simp add: ex_run_R2)
  from update_end_state[OF run] old differ ca refs obtain b where
    r: "root_indexes (fi ?w') = [b]" "ii_RawManifest ex_R2 = Inr b"
      "\<forall>j < length (fi ?w). fi ?w' ! j = None \<or> fi ?w' ! j = fi ?w ! j"
      "blob_digests (fi ?w') =
         Inr ` fst ` set [(ex_H ''B'', Inr ''B''), (ex_H ''D'', Inr ''D''), (ex_H ''E'', Inr ''E'')]"
    by auto
  from r(2) have b: "b = ''R2''" by (simp add: ex_R2_def)
  from r(3) at kept have k: "fi ?w' ! 2 = Some (ex_blob ''B'')" by auto
  from r(1) r(4) b k show ?thesis by simp
qed

text \<open>
  The root index of the store already has the digest of the target, which references
  only \<open>B\<close>: the call succeeds and the blobs \<open>A\<close> and \<open>C\<close> stay. The target serves,
  for a digest, content with another hash: the blob of the store has the hash of the
  content and not the digest of the target.
\<close>

theorem update_end_state_counterexample:
  "root_indexes ex_store = [''R1''] \<and> ii_Digest ex_R1 = Inr (ex_H ''R1'') \<and>
   fst (Update ex_H ex_R1 [] (ex_world ex_store [])) = None \<and>
   index_refs ex_R1 = Inr [(ex_H ''B'', Inr ''B'')] \<and>
   blob_digests (fi (snd (Update ex_H ex_R1 [] (ex_world ex_store [])))) =
     {Inr (ex_H ''A''), Inr (ex_H ''B''), Inr (ex_H ''C'')} \<and>
   Inr (ex_H ''A'') \<notin> Inr ` fst ` set [(ex_H ''B'', Inr ''B'')] \<and>
   fst (Update ex_H ex_R3 [] (ex_world [Some (ex_root ''R1'')] [])) = None \<and>
   index_refs ex_R3 = Inr [(''sha256:Z'', Inr ''Y'')] \<and>
   blob_digests (fi (snd (Update ex_H ex_R3 [] (ex_world [Some (ex_root ''R1'')] [])))) =
     {Inr ''sha256:Y''}"
  by (simp add: ex_sif_defs ex_refs_defs)

theorem update_idempotent_witness:
  "Update ex_H ex_R1 [] (ex_world ex_store []) = (None, ex_world ex_store []) \<and>
   fi (snd (Update ex_H ex_R1 [] (ex_world ex_store []))) = ex_store \<and>
   fi (snd (Update ex_H ex_R2 [] (snd (Update ex_H ex_R2 [] (ex_world ex_store []))))) =
     fi (snd (Update ex_H ex_R2 [] (ex_world ex_store []))) \<and>
   trace (snd (Update ex_H ex_R2 [] (snd (Update ex_H ex_R2 [] (ex_world ex_store []))))) =
     trace (snd (Update ex_H ex_R2 [] (ex_world ex_store [])))"
proof -
  let ?w = "ex_world ex_store []"
  let ?w' = "snd (Update ex_H ex_R2 [] ?w)"
  let ?r' = "fst (Update ex_H ex_R2 [] ?w')"
  let ?w'' = "snd (Update ex_H ex_R2 [] ?w')"
  have a1: "applyOpts [] \<lparr>tempDir = []\<rparr> = Inr \<lparr>tempDir = []\<rparr>" by simp
  have a2: "ImageIndexFromFileImage ?w = (Inr ''R1'', ?w)" by (simp add: ex_sif_defs)
  have a3: "ii_Digest ex_R1 = Inr (ex_H ''R1'')" by (simp add: ex_R1_def)
  have b1: "Update ex_H ex_R2 [] ?w = (None, ?w')" by (simp add: ex_run_R2)
  have b2: "self_addressed ex_H ex_R2" by (simp add: self_addressed_def ex_R2_def)
  have b3: "Update ex_H ex_R2 [] ?w' = (?r', ?w'')" by simp
  from update_idempotent[of "[]" "\<lparr>tempDir = []\<rparr>" ?w "''R1''" ?w ex_R1 ex_H] a1 a2 a3
  have A: "Update ex_H ex_R1 [] ?w = (None, ?w)" by blast
  from update_idempotent[of "[]" _ ?w _ _ ex_R2 ex_H ?w' ?r' ?w''] b1 b2 b3
  have B: "fi ?w'' = fi ?w'" "trace ?w'' = trace ?w'" by blast+
  from A B show ?thesis by (simp add: ex_world_def)
qed

theorem cacheIndexBlobs_no_dedup_witness:
  "fst (cacheIndexBlobs ex_S [ex_H ''C1''] ex_staging) =
     Inr ([ex_H ''X'', ex_H ''M1'', ex_H ''X'', ex_H ''C2'', ex_H ''M2''], [ex_H ''C1'']) \<and>
   trace (snd (cacheIndexBlobs ex_S [ex_H ''C1''] ex_staging)) =
     [EvStage (ex_H ''X'') ''X'', EvStage (ex_H ''M1'') ''M1'', EvStage (ex_H ''X'') ''X'',
      EvStage (ex_H ''C2'') ''C2'', EvStage (ex_H ''M2'') ''M2'']"
proof -
  let ?c = "[ex_H ''X'', ex_H ''M1'', ex_H ''X'', ex_H ''C2'', ex_H ''M2'']"
  let ?w' = "snd (cacheIndexBlobs ex_S [ex_H ''C1''] ex_staging)"
  have e: "fst (cacheIndexBlobs ex_S [ex_H ''C1''] ex_staging) = Inr (?c, [ex_H ''C1''])"
    by (simp add: ex_sif_defs)
  then have h: "cacheIndexBlobs ex_S [ex_H ''C1''] ex_staging = (Inr (?c, [ex_H ''C1'']), ?w')"
    by (metis prod.collapse)
  have refs: "index_refs ex_S =
      Inr [(ex_H ''X'', Inr ''X''), (ex_H ''C1'', Inr ''C1''), (ex_H ''M1'', Inr ''M1''),
           (ex_H ''X'', Inr ''X''), (ex_H ''C2'', Inr ''C2''), (ex_H ''M2'', Inr ''M2'')]"
    by (simp add: ex_sif_defs ex_refs_defs)
  from cacheIndexBlobs_no_dedup[OF h] obtain rs where
    rs: "index_refs ex_S = Inr rs" and
    tr: "trace ?w' = trace ex_staging @
           map (\<lambda>(d, b). EvStage d b) (staged [ex_H ''C1''] rs)"
    by blast
  from rs refs have "rs =
      [(ex_H ''X'', Inr ''X''), (ex_H ''C1'', Inr ''C1''), (ex_H ''M1'', Inr ''M1''),
       (ex_H ''X'', Inr ''X''), (ex_H ''C2'', Inr ''C2''), (ex_H ''M2'', Inr ''M2'')]"
    by simp
  with tr have "trace ?w' = trace ex_staging @
      map (\<lambda>(d, b). EvStage d b)
        (staged [ex_H ''C1'']
           [(ex_H ''X'', Inr ''X''), (ex_H ''C1'', Inr ''C1''), (ex_H ''M1'', Inr ''M1''),
            (ex_H ''X'', Inr ''X''), (ex_H ''C2'', Inr ''C2''), (ex_H ''M2'', Inr ''M2'')])"
    by simp
  then have "trace ?w' =
     [EvStage (ex_H ''X'') ''X'', EvStage (ex_H ''M1'') ''M1'', EvStage (ex_H ''X'') ''X'',
      EvStage (ex_H ''C2'') ''C2'', EvStage (ex_H ''M2'') ''M2'']"
    by (simp add: staged_def ex_staging_def ex_H_def)
  with e show ?thesis by simp
qed

text \<open>
  Two images of the target share the layer \<open>X\<close>. With an empty store, \<open>X\<close> is staged
  twice and is twice in the list of cached blobs, and \<^verbatim>\<open>Update\<close> adds it twice; with
  \<open>X\<close> in the store, it is twice in the list of skipped blobs.
\<close>

theorem cacheIndexBlobs_no_dedup_counterexample:
  "fst (cacheIndexBlobs ex_S [] ex_staging) =
     Inr ([ex_H ''X'', ex_H ''C1'', ex_H ''M1'', ex_H ''X'', ex_H ''C2'', ex_H ''M2''], []) \<and>
   trace (snd (cacheIndexBlobs ex_S [] ex_staging)) =
     [EvStage (ex_H ''X'') ''X'', EvStage (ex_H ''C1'') ''C1'', EvStage (ex_H ''M1'') ''M1'',
      EvStage (ex_H ''X'') ''X'', EvStage (ex_H ''C2'') ''C2'', EvStage (ex_H ''M2'') ''M2''] \<and>
   fst (cacheIndexBlobs ex_S [ex_H ''X''] ex_staging) =
     Inr ([ex_H ''C1'', ex_H ''M1'', ex_H ''C2'', ex_H ''M2''], [ex_H ''X'', ex_H ''X'']) \<and>
   fi (snd (Update ex_H ex_S [] (ex_world [Some (ex_root ''R1'')] []))) =
     [None, Some (ex_blob ''X''), Some (ex_blob ''C1''), Some (ex_blob ''M1''),
      Some (ex_blob ''X''), Some (ex_blob ''C2''), Some (ex_blob ''M2''), Some (ex_root ''S'')]"
  by (simp add: ex_sif_defs)

theorem update_order_witness:
  "sorted (map phase (trace (snd (Update ex_H ex_R2 [] (ex_world ex_store []))))) \<and>
   last (trace (snd (Update ex_H ex_R2 [] (ex_world ex_store [])))) = EvAdd (ex_root ''R2'') \<and>
   fst (Update ex_H ex_R2 [] (ex_world ex_store ex_faults_add)) =
     Some (ErrExternal ''disk full'') \<and>
   set (root_indexes (fi (snd (Update ex_H ex_R2 [] (ex_world ex_store ex_faults_add))))) \<subseteq>
     {''R1''}"
proof -
  let ?w = "ex_world ex_store []"
  let ?w' = "snd (Update ex_H ex_R2 [] ?w)"
  let ?v = "ex_world ex_store ex_faults_add"
  let ?v' = "snd (Update ex_H ex_R2 [] ?v)"
  let ?root = "EvAdd (ex_root ''R2'')"
  have run: "Update ex_H ex_R2 [] ?w = (None, ?w')" by (simp add: ex_run_R2)
  have t0: "trace ?w = []" by (simp add: ex_world_def)
  have last: "?root \<in> set (trace ?w')" "phase ?root = 4"
    by (simp_all add: ex_run_R2 ex_root_def)
  from update_order[OF run] obtain evs where
    e1: "trace ?w' = trace ?w @ evs" and e2: "sorted (map phase evs)" and
    e3: "\<forall>ev \<in> set evs. phase ev = 4 \<longrightarrow>
           (None :: error option) = None \<and>
           (\<exists>pre. evs = pre @ [ev] \<and> (\<forall>e \<in> set pre. phase e < 4) \<and>
              (\<forall>n c. EvStage n c \<in> set pre \<longrightarrow>
                 (\<exists>c'. EvStage n c' \<in> set pre \<and> EvAdd (blob_object ex_H c') \<in> set pre)))"
    by blast
  from e1 t0 have evs: "trace ?w' = evs" by simp
  from last evs have "?root \<in> set evs" by simp
  from e3[rule_format, OF this last(2)] obtain pre where "evs = pre @ [?root]" by blast
  then have l: "last evs = ?root" by simp
  have f: "fst (Update ex_H ex_R2 [] ?v) = Some (ErrExternal ''disk full'')"
    by (simp add: ex_sif_defs)
  then have fail: "Update ex_H ex_R2 [] ?v = (Some (ErrExternal ''disk full''), ?v')"
    by (metis prod.collapse)
  have old: "root_indexes (fi ?v) = [''R1'']" by (simp add: ex_sif_defs ex_refs_defs)
  from update_order[OF fail] old
  have "set (root_indexes (fi ?v')) \<subseteq> {''R1''}" by auto
  with evs e2 l f show ?thesis by simp
qed

theorem update_failure_before_deletion_witness:
  "fst (Update ex_H ex_R2 [] (ex_world ex_store ex_faults_stage)) \<noteq> None \<and>
   fi (snd (Update ex_H ex_R2 [] (ex_world ex_store ex_faults_stage))) = ex_store"
proof -
  let ?v = "ex_world ex_store ex_faults_stage"
  have h: "fails_before_deletion ex_H ex_R2 [] ?v"
    by (simp add: fails_before_deletion_def ex_sif_defs)
  have r: "Update ex_H ex_R2 [] ?v =
             (fst (Update ex_H ex_R2 [] ?v), snd (Update ex_H ex_R2 [] ?v))" by simp
  from update_failure_before_deletion[OF h r]
  show ?thesis by (simp add: ex_world_def)
qed


end
